theory Spec2Isabelle
  imports Complex_Main "HOL-Library.Multiset" "HOL-Library.Sublist"
begin

section \<open>Constants of the solver (include/solver.hh, include/helpers.hh)\<close>

text \<open>
  \<^verbatim>\<open>raise_power\<close> is the compile-time power function of helpers.hh:
  \<^verbatim>\<open>exponent <= 0 ? 1 : value * raise_power(value, exponent - 1)\<close>.
\<close>

function raise_power :: "int \<Rightarrow> int \<Rightarrow> int" where
  "raise_power v e = (if e \<le> 0 then 1 else v * raise_power v (e - 1))"
  by pat_completeness auto
termination
  by (relation "measure (\<lambda>(v, e). nat e)") auto

definition NUM_WORD_LETTERS :: nat where
  "NUM_WORD_LETTERS = 5"

definition NUM_ALLOWED_GUESSES :: int where
  "NUM_ALLOWED_GUESSES = 6"

text \<open>
  \<^verbatim>\<open>match_val_t\<close> is \<^verbatim>\<open>uint8_t\<close>: a value stored at that type is taken modulo 256.
\<close>

definition to_match_val_t :: "int \<Rightarrow> nat" where
  "to_match_val_t v = nat (v mod 256)"

definition NUM_MATCH_VALS :: nat where
  "NUM_MATCH_VALS = to_match_val_t (raise_power 3 (int NUM_WORD_LETTERS))"

definition ALL_GREENS_MATCH :: nat where
  "ALL_GREENS_MATCH = NUM_MATCH_VALS - 1"

section \<open>The match encoder (solver::calc_match_val)\<close>

text \<open>
  The inner loop over \<^verbatim>\<open>j\<close>: the first position of the solution that is not yet
  consumed, carries the guessed letter and is not itself a green position.  The loop
  \<^verbatim>\<open>break\<close>s there; \<open>None\<close> is the loop running to its end.
\<close>

fun yellow_scan :: "string \<Rightarrow> string \<Rightarrow> char \<Rightarrow> bool list \<Rightarrow> nat list \<Rightarrow> nat option" where
  "yellow_scan guess solution guess_chr seen_solution [] = None"
| "yellow_scan guess solution guess_chr seen_solution (j # js) =
     (if seen_solution ! j then yellow_scan guess solution guess_chr seen_solution js
      else if guess_chr = solution ! j \<and> guess ! j \<noteq> solution ! j then Some j
      else yellow_scan guess solution guess_chr seen_solution js)"

text \<open>
  The loop state of \<^verbatim>\<open>calc_match_val\<close>: \<^verbatim>\<open>match_val\<close>, \<^verbatim>\<open>mult\<close> (here \<open>mlt\<close>),
  \<^verbatim>\<open>seen_solution\<close> and \<^verbatim>\<open>match_string\<close>.
\<close>

type_synonym match_acc = "int \<times> int \<times> bool list \<times> string"

text \<open>One iteration of the outer loop, with the \<^verbatim>\<open>mult *= 3\<close> of the loop header.\<close>

fun match_letter :: "string \<Rightarrow> string \<Rightarrow> match_acc \<Rightarrow> nat \<Rightarrow> match_acc" where
  "match_letter guess solution (match_val, mlt, seen_solution, match_string) i =
     (let guess_chr = guess ! i in
      if guess_chr = solution ! i
      then (match_val + 2 * mlt, mlt * 3, seen_solution[i := True], match_string[i := CHR ''G''])
      else (case yellow_scan guess solution guess_chr seen_solution [0..<NUM_WORD_LETTERS] of
              None \<Rightarrow> (match_val, mlt * 3, seen_solution, match_string)
            | Some j \<Rightarrow> (match_val + mlt, mlt * 3, seen_solution[j := True],
                        match_string[i := CHR ''y''])))"

definition match_loop :: "string \<Rightarrow> string \<Rightarrow> match_acc" where
  "match_loop guess solution =
     foldl (match_letter guess solution)
       (0, 1, replicate NUM_WORD_LETTERS False, replicate NUM_WORD_LETTERS CHR ''.'')
       [0..<NUM_WORD_LETTERS]"

text \<open>
  \<^verbatim>\<open>calc_match_val\<close> writes the string into \<^verbatim>\<open>m_match_strings[match_val]\<close> and returns
  the value cast to \<^verbatim>\<open>match_val_t\<close>.  The table is passed in and returned.
\<close>

definition calc_match_val :: "string list \<Rightarrow> string \<Rightarrow> string \<Rightarrow> string list \<times> nat" where
  "calc_match_val m_match_strings guess solution =
     (case match_loop guess solution of
        (match_val, mlt, seen_solution, match_string) \<Rightarrow>
          (m_match_strings[nat match_val := match_string], to_match_val_t match_val))"

section \<open>Construction (solver::solver, check_guesses_solutions, init_match_vals)\<close>

text \<open>
  Every \<^verbatim>\<open>throw std::runtime_error\<close> of \<^verbatim>\<open>check_guesses_solutions\<close> is one constructor,
  carrying what the message names.
\<close>

datatype error =
    Empty_guesses
  | Empty_solutions
  | Solution_length string nat
  | Solution_not_guess string
  | Guess_length string nat

text \<open>
  The read-only members of the solver.  The memo table \<^verbatim>\<open>m_memo\<close> is threaded through
  the search as a value of its own; the thread counters have no counterpart.
\<close>

record solver =
  m_num_valid_guesses :: nat
  m_num_solutions :: nat
  m_match_vals :: "nat list"
  m_match_strings :: "string list"
  m_prune_limit :: nat

text \<open>The loop over the solutions: the length test comes before the membership test.\<close>

fun check_solutions :: "string list \<Rightarrow> string list \<Rightarrow> error option" where
  "check_solutions valid_guesses [] = None"
| "check_solutions valid_guesses (solution # rest) =
     (if length solution \<noteq> NUM_WORD_LETTERS
      then Some (Solution_length solution (length solution))
      else if solution \<notin> set valid_guesses then Some (Solution_not_guess solution)
      else check_solutions valid_guesses rest)"

fun check_guesses :: "string list \<Rightarrow> error option" where
  "check_guesses [] = None"
| "check_guesses (guess # rest) =
     (if length guess \<noteq> NUM_WORD_LETTERS then Some (Guess_length guess (length guess))
      else check_guesses rest)"

definition check_guesses_solutions :: "string list \<Rightarrow> string list \<Rightarrow> error option" where
  "check_guesses_solutions valid_guesses solutions =
     (if valid_guesses = [] then Some Empty_guesses
      else if solutions = [] then Some Empty_solutions
      else (case check_solutions valid_guesses solutions of
              Some e \<Rightarrow> Some e
            | None \<Rightarrow> check_guesses valid_guesses))"

text \<open>
  \<^verbatim>\<open>init_match_vals\<close>: the two nested loops, writing
  \<^verbatim>\<open>m_match_vals[i * m_num_solutions + j]\<close> and, through \<^verbatim>\<open>calc_match_val\<close>, the string
  table.
\<close>

definition init_match_cell ::
  "string list \<Rightarrow> string list \<Rightarrow> nat \<Rightarrow> nat list \<times> string list \<Rightarrow> nat \<Rightarrow> nat list \<times> string list" where
  "init_match_cell valid_guesses solutions i tables j =
     (case tables of (vals, strings) \<Rightarrow>
        (case calc_match_val strings (valid_guesses ! i) (solutions ! j) of
           (strings', v) \<Rightarrow> (vals[i * length solutions + j := v], strings')))"

definition init_match_row ::
  "string list \<Rightarrow> string list \<Rightarrow> nat list \<times> string list \<Rightarrow> nat \<Rightarrow> nat list \<times> string list" where
  "init_match_row valid_guesses solutions tables i =
     foldl (init_match_cell valid_guesses solutions i) tables [0..<length solutions]"

definition init_match_vals ::
  "string list \<Rightarrow> string list \<Rightarrow> nat list \<times> string list \<Rightarrow> nat list \<times> string list" where
  "init_match_vals valid_guesses solutions tables =
     foldl (init_match_row valid_guesses solutions) tables [0..<length valid_guesses]"

text \<open>
  The constructor: the member initialisers (a zeroed matrix of \<open>G * S\<close> entries,
  \<^verbatim>\<open>NUM_MATCH_VALS\<close> empty strings, prune limit 0), then the check, then the matrix.
\<close>

definition solver_new :: "string list \<Rightarrow> string list \<Rightarrow> error + solver" where
  "solver_new valid_guesses solutions =
     (case check_guesses_solutions valid_guesses solutions of
        Some e \<Rightarrow> Inl e
      | None \<Rightarrow>
          (case init_match_vals valid_guesses solutions
                  (replicate (length valid_guesses * length solutions) 0,
                   replicate NUM_MATCH_VALS [])
           of (vals, strings) \<Rightarrow>
             Inr \<lparr> m_num_valid_guesses = length valid_guesses,
                   m_num_solutions = length solutions,
                   m_match_vals = vals,
                   m_match_strings = strings,
                   m_prune_limit = 0 \<rparr>))"

definition lookup_match :: "solver \<Rightarrow> nat \<Rightarrow> nat \<Rightarrow> nat" where
  "lookup_match sv guess_index solution_index =
     m_match_vals sv ! (guess_index * m_num_solutions sv + solution_index)"

section \<open>The guess ranker\<close>

text \<open>
  The loop body of \<^verbatim>\<open>avg_solutions_per_unique_match\<close>: the \<^verbatim>\<open>seen\<close> array of
  \<^verbatim>\<open>NUM_MATCH_VALS\<close> flags and the counter \<^verbatim>\<open>num_unique_matches\<close>.
\<close>

definition note_match :: "solver \<Rightarrow> nat \<Rightarrow> bool list \<times> int \<Rightarrow> nat \<Rightarrow> bool list \<times> int" where
  "note_match sv guess_index st solution_index =
     (case st of (seen, num_unique_matches) \<Rightarrow>
        (let match = lookup_match sv guess_index solution_index in
         if \<not> seen ! match then (seen[match := True], num_unique_matches + 1)
         else (seen, num_unique_matches)))"

text \<open>
  The quotient is a \<^verbatim>\<open>double\<close> in the source; it is the exact rational here.  Numerator
  and denominator are small integers (the denominator is at most 243), so the comparisons
  the ranker makes on the rounded quotients agree with those on the exact ones.  On an
  empty index list the source divides 0.0 by 0; the search never passes one.
\<close>

definition avg_solutions_per_unique_match :: "solver \<Rightarrow> nat list \<Rightarrow> nat \<Rightarrow> rat" where
  "avg_solutions_per_unique_match sv solution_indexes guess_index =
     (case foldl (note_match sv guess_index) (replicate NUM_MATCH_VALS False, 0) solution_indexes of
        (seen, num_unique_matches) \<Rightarrow>
          (let num_solutions =
                 (if seen ! ALL_GREENS_MATCH then int (length solution_indexes) - 1
                  else int (length solution_indexes))
           in of_int num_solutions / of_int num_unique_matches))"

text \<open>
  \<^verbatim>\<open>std::ranges::partial_sort\<close> is library code.  The search takes it as a parameter
  \<open>psort\<close>; \<open>partial_sort_post\<close> is what the C++ standard promises of its result: a
  permutation of the input whose first \<open>middle\<close> entries are the smallest ones, in
  ascending order of the projection (here the average, the first component).  The
  relative order of entries with equal projection is not promised.
\<close>

type_synonym partial_sort = "(rat \<times> nat) list \<Rightarrow> nat \<Rightarrow> (rat \<times> nat) list"

definition partial_sort_post :: "(rat \<times> nat) list \<Rightarrow> nat \<Rightarrow> (rat \<times> nat) list \<Rightarrow> bool" where
  "partial_sort_post xs middle ys \<longleftrightarrow>
     mset ys = mset xs
     \<and> sorted (map fst (take middle ys))
     \<and> (\<forall>x \<in> set (take middle ys). \<forall>y \<in> set (drop middle ys). fst x \<le> fst y)"

text \<open>A function that meets the contract on every input: a full stable sort.\<close>

definition partial_sort_stable :: partial_sort where
  "partial_sort_stable xs middle = sort_key fst xs"

text \<open>
  \<^verbatim>\<open>std::ranges::partial_sort\<close> as the GNU C++ library implements it
  (\<^verbatim>\<open>bits/ranges_algo.h\<close> and \<^verbatim>\<open>bits/stl_heap.h\<close>): \<^verbatim>\<open>make_heap\<close> on \<open>[first, middle)\<close>, a
  pass over \<open>[middle, last)\<close> that exchanges an element smaller than the top of the heap
  with that top, then \<^verbatim>\<open>sort_heap\<close> on \<open>[first, middle)\<close>.  The comparison is
  \<^verbatim>\<open>ranges::less\<close> on the projection, the average of the pair.
\<close>

definition avg_less :: "rat \<times> nat \<Rightarrow> rat \<times> nat \<Rightarrow> bool" where
  "avg_less a b \<longleftrightarrow> fst a < fst b"

text \<open>\<^verbatim>\<open>std::__push_heap\<close>: the value moves up from the hole while its parent is smaller.\<close>

function push_heap_loop ::
  "(rat \<times> nat) list \<Rightarrow> nat \<Rightarrow> nat \<Rightarrow> rat \<times> nat \<Rightarrow> (rat \<times> nat) list" where
  "push_heap_loop xs holeIndex topIndex v =
     (let parent = (holeIndex - 1) div 2 in
      if holeIndex > topIndex \<and> avg_less (xs ! parent) v
      then push_heap_loop (xs[holeIndex := xs ! parent]) parent topIndex v
      else xs[holeIndex := v])"
  by pat_completeness auto
termination
  by (relation "measure (\<lambda>(xs, holeIndex, topIndex, v). holeIndex)") auto

text \<open>
  \<^verbatim>\<open>std::__adjust_heap\<close>: the hole moves down to the larger child (the right one on a
  tie), the last node of a heap of even length has a left child only, and the value is
  then pushed up from the hole.  It is called with \<open>len \<ge> 1\<close> only.
\<close>

function adjust_heap_loop ::
  "(rat \<times> nat) list \<Rightarrow> nat \<Rightarrow> nat \<Rightarrow> nat \<Rightarrow> (rat \<times> nat) list \<times> nat \<times> nat" where
  "adjust_heap_loop xs len holeIndex secondChild =
     (if secondChild < (len - 1) div 2
      then (let child = 2 * (secondChild + 1);
                child' = (if avg_less (xs ! child) (xs ! (child - 1)) then child - 1 else child)
            in adjust_heap_loop (xs[holeIndex := xs ! child']) len child' child')
      else (xs, holeIndex, secondChild))"
  by pat_completeness auto
termination
  by (relation "measure (\<lambda>(xs, len, holeIndex, secondChild). len - secondChild)") auto

definition adjust_heap ::
  "(rat \<times> nat) list \<Rightarrow> nat \<Rightarrow> nat \<Rightarrow> rat \<times> nat \<Rightarrow> (rat \<times> nat) list" where
  "adjust_heap xs holeIndex len v =
     (case adjust_heap_loop xs len holeIndex holeIndex of
        (xs1, hole1, child1) \<Rightarrow>
          if len mod 2 = 0 \<and> child1 = (len - 2) div 2
          then (let child2 = 2 * (child1 + 1)
                in push_heap_loop (xs1[hole1 := xs1 ! (child2 - 1)]) (child2 - 1) holeIndex v)
          else push_heap_loop xs1 hole1 holeIndex v)"

text \<open>\<^verbatim>\<open>std::__make_heap\<close>: \<^verbatim>\<open>__adjust_heap\<close> at every parent, from the last one down to 0.\<close>

function make_heap_loop :: "(rat \<times> nat) list \<Rightarrow> nat \<Rightarrow> nat \<Rightarrow> (rat \<times> nat) list" where
  "make_heap_loop xs len parent =
     (let xs' = adjust_heap xs parent len (xs ! parent) in
      if parent = 0 then xs' else make_heap_loop xs' len (parent - 1))"
  by pat_completeness auto
termination
  by (relation "measure (\<lambda>(xs, len, parent). parent)") auto

definition make_heap :: "(rat \<times> nat) list \<Rightarrow> (rat \<times> nat) list" where
  "make_heap xs =
     (if length xs < 2 then xs else make_heap_loop xs (length xs) ((length xs - 2) div 2))"

text \<open>
  \<^verbatim>\<open>pop_heap\<close> moves the top to the last position and restores the heap before it;
  \<^verbatim>\<open>push_heap\<close> pushes the last element up.
\<close>

definition pop_heap :: "(rat \<times> nat) list \<Rightarrow> (rat \<times> nat) list" where
  "pop_heap xs =
     (if length xs > 1
      then (let l = length xs - 1 in adjust_heap (xs[l := xs ! 0]) 0 l (xs ! l))
      else xs)"

definition push_heap :: "(rat \<times> nat) list \<Rightarrow> (rat \<times> nat) list" where
  "push_heap xs = push_heap_loop xs (length xs - 1) 0 (xs ! (length xs - 1))"

text \<open>\<^verbatim>\<open>sort_heap\<close>: pop the top to the end of an ever shorter heap.\<close>

function sort_heap_loop :: "(rat \<times> nat) list \<Rightarrow> nat \<Rightarrow> (rat \<times> nat) list" where
  "sort_heap_loop xs l =
     (if l > 1
      then sort_heap_loop (adjust_heap (xs[l - 1 := xs ! 0]) 0 (l - 1) (xs ! (l - 1))) (l - 1)
      else xs)"
  by pat_completeness auto
termination
  by (relation "measure (\<lambda>(xs, l). l)") auto

definition sort_heap :: "(rat \<times> nat) list \<Rightarrow> (rat \<times> nat) list" where
  "sort_heap xs = sort_heap_loop xs (length xs)"

text \<open>
  The pass over \<open>[middle, last)\<close>: \<open>heap\<close> is the range \<open>[first, middle)\<close>, \<open>passed\<close> the
  part of \<open>[middle, last)\<close> already visited.  An element smaller than the top goes through
  \<^verbatim>\<open>pop_heap\<close>, \<^verbatim>\<open>iter_swap(middle - 1, i)\<close> and \<^verbatim>\<open>push_heap\<close>.
\<close>

fun heap_select ::
  "(rat \<times> nat) list \<Rightarrow> (rat \<times> nat) list \<Rightarrow> (rat \<times> nat) list
     \<Rightarrow> (rat \<times> nat) list \<times> (rat \<times> nat) list" where
  "heap_select heap passed [] = (heap, passed)"
| "heap_select heap passed (x # rest) =
     (if avg_less x (heap ! 0)
      then (let popped = pop_heap heap;
                l = length heap - 1
            in heap_select (push_heap (popped[l := x])) (passed @ [popped ! l]) rest)
      else heap_select heap (passed @ [x]) rest)"

definition ranges_partial_sort :: partial_sort where
  "ranges_partial_sort xs middle =
     (if middle = 0 then xs
      else (case heap_select (make_heap (take middle xs)) [] (drop middle xs) of
              (heap, passed) \<Rightarrow> sort_heap heap @ passed))"

text \<open>\<^verbatim>\<open>std::vector::resize\<close>: truncate, or pad with value-initialised elements.\<close>

definition resize :: "'a list \<Rightarrow> nat \<Rightarrow> 'a \<Rightarrow> 'a list" where
  "resize xs n dflt = take n xs @ replicate (n - length xs) dflt"

text \<open>
  The loop of \<^verbatim>\<open>get_best_unique_match_guesses\<close> over all guess indexes: \<open>Inl\<close> is the
  early \<^verbatim>\<open>return { { avg, guess_index } }\<close>, \<open>Inr\<close> the vector \<^verbatim>\<open>ret\<close> at the end of the
  loop.
\<close>

fun collect_avgs ::
  "(nat \<Rightarrow> rat) \<Rightarrow> nat list \<Rightarrow> (rat \<times> nat) list \<Rightarrow> (rat \<times> nat) + (rat \<times> nat) list" where
  "collect_avgs get_avg [] ret = Inr ret"
| "collect_avgs get_avg (guess_index # rest) ret =
     (let avg = get_avg guess_index in
      if avg < 1 then Inl (avg, guess_index)
      else collect_avgs get_avg rest (ret @ [(avg, guess_index)]))"

definition get_best_unique_match_guesses ::
  "partial_sort \<Rightarrow> solver \<Rightarrow> nat list \<Rightarrow> (rat \<times> nat) list" where
  "get_best_unique_match_guesses psort sv solution_indexes =
     (case collect_avgs (avg_solutions_per_unique_match sv solution_indexes)
             [0..<m_num_valid_guesses sv] [] of
        Inl e \<Rightarrow> [e]
      | Inr ret \<Rightarrow> resize (psort ret (m_prune_limit sv + 1)) (m_prune_limit sv) (0, 0))"

definition get_solutions_by_match :: "solver \<Rightarrow> nat \<Rightarrow> nat list \<Rightarrow> nat list list" where
  "get_solutions_by_match sv guess_index solution_indexes =
     foldl (\<lambda>ret solution_index.
              (let match_val = lookup_match sv guess_index solution_index in
               ret[match_val := ret ! match_val @ [solution_index]]))
       (replicate NUM_MATCH_VALS []) solution_indexes"

section \<open>Decision nodes\<close>

text \<open>
  \<^verbatim>\<open>solver::node\<close>.  A child pointer is modelled by the child node itself: a node is not
  written to after \<^verbatim>\<open>solve\<close> has returned it.  The counters are \<^verbatim>\<open>int\<close> in the source
  and unbounded integers here; their overflow is not modelled.
\<close>

datatype node =
  Node (guess_index: nat) (total_depth: int) (solved_count: int) (min_depth: int)
       (is_leaf: bool) (children: "node list") (leaves: "nat list")

definition new_node :: node where
  "new_node = Node 0 0 0 0 False [] []"

text \<open>
  The value of \<^verbatim>\<open>average_num_guesses\<close> is a \<^verbatim>\<open>double\<close>.  A finite one is the exact rational
  (rounding is not modelled); a quotient by zero is an infinity or, for \<open>0 / 0\<close>, a NaN, as
  IEEE 754 has it.  \<open>double_less\<close> is \<^verbatim>\<open>operator<\<close>: false whenever a NaN takes part.
\<close>

datatype double_val = Finite rat | Pos_inf | Neg_inf | NaN

definition double_div :: "int \<Rightarrow> int \<Rightarrow> double_val" where
  "double_div a b =
     (if b = 0 then (if a = 0 then NaN else if 0 < a then Pos_inf else Neg_inf)
      else Finite (of_int a / of_int b))"

fun double_less :: "double_val \<Rightarrow> double_val \<Rightarrow> bool" where
  "double_less (Finite a) (Finite b) = (a < b)"
| "double_less NaN y = False"
| "double_less x NaN = False"
| "double_less x Neg_inf = False"
| "double_less Neg_inf y = True"
| "double_less Pos_inf y = False"
| "double_less x Pos_inf = True"

definition average_num_guesses :: "node \<Rightarrow> double_val" where
  "average_num_guesses n =
     (if solved_count n = 0 then Finite 0 else double_div (total_depth n) (solved_count n))"

definition mark_solved :: "solver \<Rightarrow> node \<Rightarrow> nat \<Rightarrow> nat \<Rightarrow> node" where
  "mark_solved sv subtree guess_idx solution_index =
     (case subtree of Node gi td sc md il ch lv \<Rightarrow>
        if lookup_match sv guess_idx solution_index = ALL_GREENS_MATCH
        then Node gi (td + 1) (sc + 1) (max md 1) True ch lv
        else Node gi (td + 1 + 1) (sc + 1) (max md 2) il ch (lv @ [solution_index]))"

section \<open>The search (solver::solve, traverse_matches, traverse_match)\<close>

text \<open>
  The memo table, keyed by the index vector.  \<^verbatim>\<open>m_memo[key] = val\<close> overwrites.
\<close>

type_synonym memo = "(nat list \<times> node) list"

definition lookup_memo :: "memo \<Rightarrow> nat list \<Rightarrow> node option" where
  "lookup_memo memo key = map_of memo key"

definition set_memo :: "memo \<Rightarrow> nat list \<Rightarrow> node \<Rightarrow> memo" where
  "set_memo memo key val = (key, val) # filter (\<lambda>kv. fst kv \<noteq> key) memo"

text \<open>
  The recursion of the source need not end (a candidate that leaves the feasible set in
  one piece recurses on the same set), so \<^verbatim>\<open>solve\<close> carries fuel.  \<open>Out_of_fuel\<close> is the
  recursion cut off; \<open>Empty_block\<close> is the read of \<^verbatim>\<open>subtrees[0]\<close> in a block of no nodes.
\<close>

datatype fault = Out_of_fuel | Empty_block

type_synonym search = "memo \<Rightarrow> nat list \<Rightarrow> int \<Rightarrow> fault + (node \<times> memo)"

definition within_depth :: "int \<Rightarrow> node \<Rightarrow> bool" where
  "within_depth depth subtree \<longleftrightarrow> depth + min_depth subtree \<le> NUM_ALLOWED_GUESSES"

text \<open>
  \<^verbatim>\<open>traverse_match\<close>; \<open>rec\<close> is the recursive call of \<^verbatim>\<open>solve\<close>.  The result carries the
  returned flag, the updated \<^verbatim>\<open>subtree\<close> and the memo table.
\<close>

definition traverse_match ::
  "search \<Rightarrow> solver \<Rightarrow> memo \<Rightarrow> node \<Rightarrow> nat \<Rightarrow> int \<Rightarrow> nat list \<Rightarrow> fault + (bool \<times> node \<times> memo)" where
  "traverse_match rec sv memo subtree guess_idx depth avail_solutions =
     (if avail_solutions = [] then Inr (True, subtree, memo)
      else if length avail_solutions = 1
      then Inr (True, mark_solved sv subtree guess_idx (avail_solutions ! 0), memo)
      else (case rec memo avail_solutions (depth + 1) of
              Inl f \<Rightarrow> Inl f
            | Inr (child, memo') \<Rightarrow>
                (case subtree of Node gi td sc md il ch lv \<Rightarrow>
                   (let subtree' =
                          Node gi (td + (solved_count child + total_depth child))
                            (sc + solved_count child) (min md (min_depth child + 1))
                            il (ch @ [child]) lv
                    in Inr (depth + min_depth subtree' \<le> NUM_ALLOWED_GUESSES, subtree', memo')))))"

text \<open>The loop of \<^verbatim>\<open>traverse_matches\<close> over the match values, with its \<^verbatim>\<open>break\<close>.\<close>

fun traverse_loop ::
  "search \<Rightarrow> solver \<Rightarrow> nat list list \<Rightarrow> memo \<Rightarrow> node \<Rightarrow> nat \<Rightarrow> int \<Rightarrow> nat list \<Rightarrow> fault + (node \<times> memo)" where
  "traverse_loop rec sv solutions_by_match memo subtree guess_idx depth [] = Inr (subtree, memo)"
| "traverse_loop rec sv solutions_by_match memo subtree guess_idx depth (match # rest) =
     (case traverse_match rec sv memo subtree guess_idx depth (solutions_by_match ! match) of
        Inl f \<Rightarrow> Inl f
      | Inr (continue, subtree', memo') \<Rightarrow>
          if continue
          then traverse_loop rec sv solutions_by_match memo' subtree' guess_idx depth rest
          else Inr (subtree', memo'))"

definition traverse_matches ::
  "search \<Rightarrow> solver \<Rightarrow> memo \<Rightarrow> node \<Rightarrow> nat \<Rightarrow> nat list \<Rightarrow> int \<Rightarrow> fault + (node \<times> memo)" where
  "traverse_matches rec sv memo subtree guess_idx solution_indexes depth =
     traverse_loop rec sv (get_solutions_by_match sv guess_idx solution_indexes)
       memo subtree guess_idx depth [0..<NUM_MATCH_VALS]"

text \<open>
  The loop of \<^verbatim>\<open>solve\<close> over the candidates of the block, each explored to its end
  before the next one starts (the schedule of a single worker).
\<close>

fun explore ::
  "search \<Rightarrow> solver \<Rightarrow> memo \<Rightarrow> nat list \<Rightarrow> int \<Rightarrow> (rat \<times> nat) list \<Rightarrow> fault + (node list \<times> memo)" where
  "explore rec sv memo solution_indexes depth [] = Inr ([], memo)"
| "explore rec sv memo solution_indexes depth (best_guess # rest) =
     (let guess_idx = snd best_guess;
          subtree = Node guess_idx 0 0 0 False [] []
      in case traverse_matches rec sv memo subtree guess_idx solution_indexes depth of
           Inl f \<Rightarrow> Inl f
         | Inr (subtree', memo') \<Rightarrow>
             (case explore rec sv memo' solution_indexes depth rest of
                Inl f \<Rightarrow> Inl f
              | Inr (subtrees, memo'') \<Rightarrow> Inr (subtree' # subtrees, memo'')))"

text \<open>
  \<^verbatim>\<open>std::ranges::min_element\<close> with a projection: a scan from the left that moves to a
  later element only when its projection is strictly smaller, so the first of the
  smallest elements is returned.  \<^verbatim>\<open>get_range_min\<close> of helpers.hh dereferences the result;
  it is called on non-empty ranges only.
\<close>

fun min_element :: "('a \<Rightarrow> double_val) \<Rightarrow> 'a \<Rightarrow> 'a list \<Rightarrow> 'a" where
  "min_element proj best [] = best"
| "min_element proj best (x # xs) =
     min_element proj (if double_less (proj x) (proj best) then x else best) xs"

fun get_range_min :: "('a \<Rightarrow> double_val) \<Rightarrow> 'a list \<Rightarrow> 'a" where
  "get_range_min proj (x # xs) = min_element proj x xs"

text \<open>
  The position in the block of the node \<^verbatim>\<open>best\<close> refers to: the filter view keeps the
  positions within depth, and position 0 is the fallback when it is empty.
\<close>

definition best_index :: "int \<Rightarrow> node list \<Rightarrow> nat" where
  "best_index depth subtrees =
     (let filtered = filter (\<lambda>i. within_depth depth (subtrees ! i)) [0..<length subtrees] in
      if filtered = [] then 0
      else get_range_min (\<lambda>i. average_num_guesses (subtrees ! i)) filtered)"

definition swap_nodes :: "nat \<Rightarrow> nat \<Rightarrow> node list \<Rightarrow> node list" where
  "swap_nodes i j subtrees = subtrees[i := subtrees ! j, j := subtrees ! i]"

fun solve :: "partial_sort \<Rightarrow> solver \<Rightarrow> nat \<Rightarrow> search" where
  "solve psort sv 0 memo solution_indexes depth = Inl Out_of_fuel"
| "solve psort sv (Suc fuel) memo solution_indexes depth =
     (let cached = lookup_memo memo solution_indexes in
      if cached \<noteq> None \<and> within_depth depth (the cached) then Inr (the cached, memo)
      else
        (let best_guesses = get_best_unique_match_guesses psort sv solution_indexes in
         case explore (solve psort sv fuel) sv memo solution_indexes depth best_guesses of
           Inl f \<Rightarrow> Inl f
         | Inr (subtrees, memo') \<Rightarrow>
             if subtrees = [] then Inl Empty_block
             else
               (let swapped = swap_nodes (best_index depth subtrees) 0 subtrees in
                Inr (swapped ! 0, set_memo memo' solution_indexes (swapped ! 0)))))"

text \<open>
  \<^verbatim>\<open>solver::solve(int prune_limit)\<close>: the limit is cast to \<^verbatim>\<open>size_t\<close> (a negative one
  wraps around modulo \<open>2^64\<close>) and clamped to \<open>G - 1\<close>, the memo table is cleared, and the
  search starts from all solutions at depth 0.  A constructed solver has \<open>G \<ge> 1\<close>, so
  \<open>G - 1\<close> does not wrap.
\<close>

definition set_prune_limit :: "solver \<Rightarrow> int \<Rightarrow> solver" where
  "set_prune_limit sv prune_limit =
     sv\<lparr> m_prune_limit := min (nat (prune_limit mod 2 ^ 64)) (m_num_valid_guesses sv - 1) \<rparr>"

definition solve_run :: "partial_sort \<Rightarrow> solver \<Rightarrow> nat \<Rightarrow> int \<Rightarrow> fault + node" where
  "solve_run psort sv fuel prune_limit =
     (let sv' = set_prune_limit sv prune_limit;
          solution_indexes = [0..<m_num_solutions sv']
      in case solve psort sv' fuel [] solution_indexes 0 of
           Inl f \<Rightarrow> Inl f
         | Inr (tree, memo) \<Rightarrow> Inr tree)"

section \<open>Example inputs\<close>

text \<open>
  Word lists used to run the model: three and four words without a common letter, and
  eight solutions that the first guess \<open>abcdz\<close> splits into four pairs.
\<close>

definition three_words :: "string list" where
  "three_words = [''aaaaa'', ''bbbbb'', ''ccccc'']"

definition four_words :: "string list" where
  "four_words = [''aaaaa'', ''bbbbb'', ''ccccc'', ''ddddd'']"

definition pairs_solutions :: "string list" where
  "pairs_solutions =
     [''ammmm'', ''annnn'', ''bpppp'', ''bqqqq'', ''crrrr'', ''cssss'', ''dtttt'', ''duuuu'']"

definition pairs_guesses :: "string list" where
  "pairs_guesses = ''abcdz'' # pairs_solutions"

section \<open>Predicates used in the statements\<close>

text \<open>
  A partial sort that keeps its contract on every input whose \<open>middle\<close> lies within
  the range.
\<close>

definition conforming :: "partial_sort \<Rightarrow> bool" where
  "conforming psort \<longleftrightarrow>
     (\<forall>xs middle. middle \<le> length xs \<longrightarrow> partial_sort_post xs middle (psort xs middle))"

text \<open>The counters of a node are consistent; every node of a memo table is so.\<close>

definition node_ok :: "node \<Rightarrow> bool" where
  "node_ok n \<longleftrightarrow> 0 \<le> solved_count n \<and> solved_count n \<le> total_depth n"

definition memo_ok :: "memo \<Rightarrow> bool" where
  "memo_ok memo \<longleftrightarrow> (\<forall>kv \<in> set memo. node_ok (snd kv))"

text \<open>A search started on a consistent memo table returns a consistent node and table.\<close>

definition search_ok :: "search \<Rightarrow> bool" where
  "search_ok rec \<longleftrightarrow>
     (\<forall>memo F depth nd memo'.
        memo_ok memo \<longrightarrow> rec memo F depth = Inr (nd, memo') \<longrightarrow> node_ok nd \<and> memo_ok memo')"


text \<open>
  Whatever the first search returns, the second returns as well.
\<close>

definition search_le :: "search \<Rightarrow> search \<Rightarrow> bool" where
  "search_le rec rec' \<longleftrightarrow>
     (\<forall>memo F depth r. rec memo F depth = Inr r \<longrightarrow> rec' memo F depth = Inr r)"


text \<open>
  The match matrix has \<open>n\<close> entries, all of them pattern values; the \<^verbatim>\<open>seen\<close> array
  represents a set of pattern values.
\<close>

definition vals_ok :: "nat \<Rightarrow> nat list \<times> string list \<Rightarrow> bool" where
  "vals_ok n tables \<longleftrightarrow> length (fst tables) = n \<and> (\<forall>v \<in> set (fst tables). v < NUM_MATCH_VALS)"

definition seen_rep :: "bool list \<Rightarrow> nat set \<Rightarrow> bool" where
  "seen_rep seen M \<longleftrightarrow> length seen = NUM_MATCH_VALS \<and> (\<forall>m<NUM_MATCH_VALS. seen ! m \<longleftrightarrow> m \<in> M)"

section \<open>Facts about the encoder\<close>

lemma NUM_MATCH_VALS_eq: "NUM_MATCH_VALS = 243"
  by code_simp

lemma ALL_GREENS_MATCH_eq: "ALL_GREENS_MATCH = 242"
  by code_simp

lemma match_loop_crate_trace:
  "match_loop ''crate'' ''trace'' = (214, 243, [True, True, True, True, True], ''yGGyG'')"
  by code_simp

lemma match_loop_allee_later:
  "match_loop ''allee'' ''later'' = (58, 243, [True, True, False, True, False], ''yy.G.'')"
  by code_simp

text \<open>
  Claim C2, as amended.  For guess \<open>crate\<close> and solution \<open>trace\<close> the encoder returns the
  pattern value 214 and records the pattern string \<open>yGGyG\<close> at that index of the string
  table: the letter \<open>r\<close> stands at position 1 of both words and is green, so the verdicts
  are yellow, green, green, yellow, green and the value is 1 + 6 + 18 + 27 + 162.
\<close>

theorem calc_match_val_crate_trace:
  "calc_match_val tbl ''crate'' ''trace'' = (tbl[214 := ''yGGyG''], 214)"
  by (simp add: calc_match_val_def match_loop_crate_trace to_match_val_t_def)

text \<open>
  Claim C2 as stated (value 211, string \<open>yyGyG\<close>) fails on the table the constructor
  starts from: the value returned is not 211 and nothing is recorded at index 211.
\<close>

theorem crate_trace_value_is_not_211:
  "\<not> (snd (calc_match_val (replicate NUM_MATCH_VALS []) ''crate'' ''trace'') = 211
      \<and> fst (calc_match_val (replicate NUM_MATCH_VALS []) ''crate'' ''trace'') ! 211 = ''yyGyG'')"
  by (simp add: calc_match_val_def match_loop_crate_trace to_match_val_t_def)

text \<open>
  Claim C8, as amended.  For guess \<open>allee\<close> and solution \<open>later\<close> the encoder records the
  pattern string \<open>yy.G.\<close> (value 58): positions 0 and 1 are yellow, position 2 is grey
  because the only \<open>l\<close> of the solution is already consumed, position 3 is green and
  position 4 is grey.
\<close>

theorem calc_match_val_allee_later:
  "calc_match_val tbl ''allee'' ''later'' = (tbl[58 := ''yy.G.''], 58)"
  by (simp add: calc_match_val_def match_loop_allee_later to_match_val_t_def)

text \<open>
  Claim C8 as stated (pattern string \<open>yyyG.\<close>) fails: the string built for this pair
  is not \<open>yyyG.\<close>.
\<close>

theorem allee_later_string_is_not_yyyG:
  "fst (calc_match_val (replicate NUM_MATCH_VALS []) ''allee'' ''later'')
     ! snd (calc_match_val (replicate NUM_MATCH_VALS []) ''allee'' ''later'') \<noteq> ''yyyG.''"
  by (simp add: calc_match_val_def match_loop_allee_later to_match_val_t_def NUM_MATCH_VALS_eq)

section \<open>Facts about construction\<close>

lemma check_solutions_Some_iff:
  "(\<exists>e. check_solutions valid_guesses solutions = Some e) \<longleftrightarrow>
     (\<exists>s \<in> set solutions. length s \<noteq> NUM_WORD_LETTERS \<or> s \<notin> set valid_guesses)"
  by (induction solutions) auto

lemma check_guesses_Some_iff:
  "(\<exists>e. check_guesses valid_guesses = Some e) \<longleftrightarrow>
     (\<exists>g \<in> set valid_guesses. length g \<noteq> NUM_WORD_LETTERS)"
  by (induction valid_guesses) auto

lemma check_guesses_solutions_Some_iff:
  "(\<exists>e. check_guesses_solutions valid_guesses solutions = Some e) \<longleftrightarrow>
     valid_guesses = [] \<or> solutions = []
     \<or> (\<exists>w \<in> set valid_guesses \<union> set solutions. length w \<noteq> NUM_WORD_LETTERS)
     \<or> (\<exists>s \<in> set solutions. s \<notin> set valid_guesses)"
proof (cases "valid_guesses = [] \<or> solutions = []")
  case True
  then show ?thesis by (auto simp: check_guesses_solutions_def)
next
  case False
  show ?thesis
  proof (cases "check_solutions valid_guesses solutions")
    case None
    then have no_sol: "\<not> (\<exists>s \<in> set solutions. length s \<noteq> NUM_WORD_LETTERS \<or> s \<notin> set valid_guesses)"
      using check_solutions_Some_iff [of valid_guesses solutions] by simp
    have "(\<exists>e. check_guesses_solutions valid_guesses solutions = Some e) \<longleftrightarrow>
          (\<exists>e. check_guesses valid_guesses = Some e)"
      using False None by (simp add: check_guesses_solutions_def)
    with no_sol False show ?thesis
      unfolding check_guesses_Some_iff by blast
  next
    case (Some e)
    then have "\<exists>s \<in> set solutions. length s \<noteq> NUM_WORD_LETTERS \<or> s \<notin> set valid_guesses"
      using check_solutions_Some_iff [of valid_guesses solutions] by blast
    moreover have "\<exists>e. check_guesses_solutions valid_guesses solutions = Some e"
      using False Some by (simp add: check_guesses_solutions_def)
    ultimately show ?thesis by blast
  qed
qed

text \<open>
  Claim C6.  Constructing a solver fails (returns an error, the model of the throw)
  if and only if the guess list is empty, the solution list is empty, some guess or
  solution has a length other than 5, or some solution is not among the valid guesses;
  otherwise it returns a solver.
\<close>

theorem solver_new_fails_iff:
  "isl (solver_new valid_guesses solutions) \<longleftrightarrow>
     valid_guesses = [] \<or> solutions = []
     \<or> (\<exists>w \<in> set valid_guesses \<union> set solutions. length w \<noteq> 5)
     \<or> (\<exists>s \<in> set solutions. s \<notin> set valid_guesses)"
proof -
  have "isl (solver_new valid_guesses solutions) \<longleftrightarrow>
        (\<exists>e. check_guesses_solutions valid_guesses solutions = Some e)"
    by (auto simp: solver_new_def split: option.splits prod.splits)
  then show ?thesis
    unfolding check_guesses_solutions_Some_iff by (simp add: NUM_WORD_LETTERS_def)
qed

theorem solver_new_fails_iff_witness:
  "\<not> isl (solver_new [''apple'', ''abcde''] [''apple''])
   \<and> isl (solver_new [''apple''] [''apple'', ''abcde''])
   \<and> isl (solver_new [''apple'', ''pear''] [''apple''])
   \<and> isl (solver_new [] [''apple''])
   \<and> isl (solver_new [''apple''] [])"
  using solver_new_fails_iff [of "[''apple'', ''abcde'']" "[''apple'']"]
        solver_new_fails_iff [of "[''apple'']" "[''apple'', ''abcde'']"]
        solver_new_fails_iff [of "[''apple'', ''pear'']" "[''apple'']"]
        solver_new_fails_iff [of "[]" "[''apple'']"]
        solver_new_fails_iff [of "[''apple'']" "[]"]
  by simp

section \<open>Facts about the ranker\<close>

lemma match_letters_bound:
  "0 \<le> mv \<Longrightarrow> mv < m \<Longrightarrow>
   foldl (match_letter guess solution) (mv, m, seen, ms) idxs = (mv', m', seen', ms') \<Longrightarrow>
   0 \<le> mv' \<and> mv' < m' \<and> m' = m * 3 ^ length idxs"
proof (induction idxs arbitrary: mv m seen ms)
  case Nil
  then show ?case by simp
next
  case (Cons i idxs)
  obtain mv1 m1 seen1 ms1 where step: "match_letter guess solution (mv, m, seen, ms) i = (mv1, m1, seen1, ms1)"
    by (cases "match_letter guess solution (mv, m, seen, ms) i") auto
  from step Cons.prems(1,2) have b: "0 \<le> mv1 \<and> mv1 < m1 \<and> m1 = m * 3"
    by (auto simp: Let_def split: if_splits option.splits)
  from Cons.prems(3) step have "foldl (match_letter guess solution) (mv1, m1, seen1, ms1) idxs = (mv', m', seen', ms')"
    by simp
  from Cons.IH [OF _ _ this] b show ?case by simp
qed

lemma match_loop_bound:
  "match_loop guess solution = (mv, m, seen, ms) \<Longrightarrow> 0 \<le> mv \<and> mv < 243"
  using match_letters_bound [of 0 1 guess solution "replicate NUM_WORD_LETTERS False"
      "replicate NUM_WORD_LETTERS CHR ''.''" "[0..<NUM_WORD_LETTERS]" mv m seen ms]
  by (simp add: match_loop_def NUM_WORD_LETTERS_def)

lemma calc_match_val_bound:
  "calc_match_val strings guess solution = (strings', v) \<Longrightarrow> v < NUM_MATCH_VALS"
proof -
  assume a: "calc_match_val strings guess solution = (strings', v)"
  obtain mv m seen ms where ml: "match_loop guess solution = (mv, m, seen, ms)"
    by (cases "match_loop guess solution") auto
  from match_loop_bound [OF ml] a ml show ?thesis
    by (auto simp: calc_match_val_def to_match_val_t_def NUM_MATCH_VALS_eq)
qed

lemma foldl_preserves:
  "P a \<Longrightarrow> (\<And>a x. P a \<Longrightarrow> P (f a x)) \<Longrightarrow> P (foldl f a xs)"
  by (induction xs arbitrary: a) auto

lemma init_match_cell_ok:
  "vals_ok n tables \<Longrightarrow> vals_ok n (init_match_cell valid_guesses solutions i tables j)"
proof -
  assume ok: "vals_ok n tables"
  obtain vals strings where t: "tables = (vals, strings)" by (cases tables)
  obtain strings' v where c: "calc_match_val strings (valid_guesses ! i) (solutions ! j) = (strings', v)"
    by (cases "calc_match_val strings (valid_guesses ! i) (solutions ! j)")
  have "v < NUM_MATCH_VALS" using calc_match_val_bound [OF c] .
  moreover have "set (vals[i * length solutions + j := v]) \<subseteq> insert v (set vals)"
    by (rule set_update_subset_insert)
  ultimately show ?thesis using ok t c
    by (auto simp: vals_ok_def init_match_cell_def)
qed

lemma init_match_vals_ok:
  "vals_ok n tables \<Longrightarrow> vals_ok n (init_match_vals valid_guesses solutions tables)"
proof -
  assume ok: "vals_ok n tables"
  have row: "vals_ok n (init_match_row valid_guesses solutions t i)" if "vals_ok n t" for t i
    unfolding init_match_row_def
    using that by (rule foldl_preserves [where P = "vals_ok n"]) (rule init_match_cell_ok)
  show ?thesis
    unfolding init_match_vals_def
    using ok by (rule foldl_preserves [where P = "vals_ok n"]) (rule row)
qed

lemma solver_new_lookup_bound:
  assumes "solver_new valid_guesses solutions = Inr sv"
    and "g < m_num_valid_guesses sv" and "s < m_num_solutions sv"
  shows "lookup_match sv g s < NUM_MATCH_VALS"
proof -
  let ?n = "length valid_guesses * length solutions"
  let ?t = "init_match_vals valid_guesses solutions (replicate ?n 0, replicate NUM_MATCH_VALS [])"
  have "vals_ok ?n (replicate ?n 0, replicate NUM_MATCH_VALS [])"
    by (simp add: vals_ok_def NUM_MATCH_VALS_eq)
  then have ok: "vals_ok ?n ?t" by (rule init_match_vals_ok)
  from assms(1) have sv: "m_match_vals sv = fst ?t" "m_num_valid_guesses sv = length valid_guesses"
      "m_num_solutions sv = length solutions"
    by (auto simp: solver_new_def split: option.splits prod.splits)
  have "g * length solutions + s < (g + 1) * length solutions"
    using assms(3) sv(3) by simp
  also have "\<dots> \<le> ?n"
    using assms(2) sv(2) by (intro mult_le_mono1) simp
  finally have "g * length solutions + s < length (fst ?t)"
    using ok by (simp add: vals_ok_def)
  then have "fst ?t ! (g * length solutions + s) \<in> set (fst ?t)" by (rule nth_mem)
  with ok show ?thesis
    by (simp add: vals_ok_def lookup_match_def sv)
qed

lemma note_match_fold:
  assumes "seen_rep seen M" and "finite M"
    and "\<forall>s \<in> set F. lookup_match sv g s < NUM_MATCH_VALS"
  shows "\<exists>seen'. foldl (note_match sv g) (seen, int (card M)) F
            = (seen', int (card (M \<union> lookup_match sv g ` set F)))
          \<and> seen_rep seen' (M \<union> lookup_match sv g ` set F)"
  using assms
proof (induction F arbitrary: seen M)
  case Nil
  then show ?case by simp
next
  case (Cons s F)
  let ?m = "lookup_match sv g s"
  have m: "?m < NUM_MATCH_VALS" using Cons.prems(3) by simp
  have rest: "\<forall>s \<in> set F. lookup_match sv g s < NUM_MATCH_VALS" using Cons.prems(3) by simp
  show ?case
  proof (cases "seen ! ?m")
    case True
    then have "?m \<in> M" using Cons.prems(1) m by (simp add: seen_rep_def)
    then have eq: "M \<union> lookup_match sv g ` set (s # F) = M \<union> lookup_match sv g ` set F" by auto
    have "note_match sv g (seen, int (card M)) s = (seen, int (card M))"
      using True by (simp add: note_match_def)
    with Cons.IH [OF Cons.prems(1,2) rest] show ?thesis unfolding eq by simp
  next
    case False
    then have notin: "?m \<notin> M" using Cons.prems(1) m by (simp add: seen_rep_def)
    have eq: "M \<union> lookup_match sv g ` set (s # F) = insert ?m M \<union> lookup_match sv g ` set F" by auto
    have rep: "seen_rep (seen[?m := True]) (insert ?m M)"
      using Cons.prems(1) m by (auto simp: seen_rep_def nth_list_update)
    have step: "note_match sv g (seen, int (card M)) s = (seen[?m := True], int (card (insert ?m M)))"
      using False notin Cons.prems(2) by (simp add: note_match_def)
    from Cons.IH [OF rep _ rest] Cons.prems(2) show ?thesis unfolding eq by (simp add: step)
  qed
qed

lemma avg_formula:
  assumes "\<forall>s \<in> set F. lookup_match sv g s < NUM_MATCH_VALS"
  shows "avg_solutions_per_unique_match sv F g =
         of_int (int (length F) - (if \<exists>s \<in> set F. lookup_match sv g s = ALL_GREENS_MATCH then 1 else 0))
         / of_nat (card (lookup_match sv g ` set F))"
proof -
  have "seen_rep (replicate NUM_MATCH_VALS False) {}" by (simp add: seen_rep_def)
  from note_match_fold [OF this _ assms]
  obtain seen' where f: "foldl (note_match sv g) (replicate NUM_MATCH_VALS False, 0) F
       = (seen', int (card (lookup_match sv g ` set F)))"
    and rep: "seen_rep seen' (lookup_match sv g ` set F)" by auto
  have "seen' ! ALL_GREENS_MATCH \<longleftrightarrow> (\<exists>s \<in> set F. lookup_match sv g s = ALL_GREENS_MATCH)"
    using rep by (auto simp: seen_rep_def ALL_GREENS_MATCH_eq NUM_MATCH_VALS_eq)
  then show ?thesis
    by (simp add: avg_solutions_per_unique_match_def f)
qed

text \<open>
  Claim C3.  For a constructed solver, a non-empty feasible list \<open>F\<close> of solution indexes
  and a guess index \<open>g\<close>, \<^verbatim>\<open>avg_solutions_per_unique_match\<close> is \<open>(|F| - delta) / U\<close>:
  \<open>U\<close> is the number of distinct match values of \<open>g\<close> against the members of \<open>F\<close>
  (and is positive), and \<open>delta\<close> is 1 when some member of \<open>F\<close> matches \<open>g\<close> all green
  and 0 otherwise.
\<close>

theorem avg_solutions_per_unique_match_formula:
  assumes "solver_new valid_guesses solutions = Inr sv"
    and "F \<noteq> []"
    and "\<forall>s \<in> set F. s < m_num_solutions sv"
    and "g < m_num_valid_guesses sv"
  shows "0 < card (lookup_match sv g ` set F)
       \<and> avg_solutions_per_unique_match sv F g =
           of_int (int (length F)
                   - (if \<exists>s \<in> set F. lookup_match sv g s = ALL_GREENS_MATCH then 1 else 0))
           / of_nat (card (lookup_match sv g ` set F))"
proof -
  have "\<forall>s \<in> set F. lookup_match sv g s < NUM_MATCH_VALS"
    using solver_new_lookup_bound [OF assms(1) assms(4)] assms(3) by blast
  then have "avg_solutions_per_unique_match sv F g =
           of_int (int (length F)
                   - (if \<exists>s \<in> set F. lookup_match sv g s = ALL_GREENS_MATCH then 1 else 0))
           / of_nat (card (lookup_match sv g ` set F))"
    by (rule avg_formula)
  moreover have "0 < card (lookup_match sv g ` set F)"
    using assms(2) by (simp add: card_gt_0_iff)
  ultimately show ?thesis by blast
qed

lemma two_words_solver:
  "solver_new [''abcde'', ''abcdf''] [''abcde'', ''abcdf'']
     = Inr (projr (solver_new [''abcde'', ''abcdf''] [''abcde'', ''abcdf'']))"
proof -
  have "\<not> isl (solver_new [''abcde'', ''abcdf''] [''abcde'', ''abcdf''])"
    by code_simp
  then show ?thesis by simp
qed

lemma two_words_sizes:
  "m_num_valid_guesses (projr (solver_new [''abcde'', ''abcdf''] [''abcde'', ''abcdf''])) = 2"
  "m_num_solutions (projr (solver_new [''abcde'', ''abcdf''] [''abcde'', ''abcdf''])) = 2"
  by code_simp+

theorem avg_solutions_per_unique_match_formula_witness:
  "avg_solutions_per_unique_match
      (projr (solver_new [''abcde'', ''abcdf''] [''abcde'', ''abcdf''])) [0, 1] 0 = 1 / 2
   \<and> int (length [0 :: nat, 1])
       - (if \<exists>s \<in> set [0, 1].
               lookup_match (projr (solver_new [''abcde'', ''abcdf''] [''abcde'', ''abcdf''])) 0 s
               = ALL_GREENS_MATCH then 1 else 0) = 1
   \<and> card (lookup_match (projr (solver_new [''abcde'', ''abcdf''] [''abcde'', ''abcdf''])) 0
             ` set [0, 1]) = 2"
proof -
  let ?sv = "projr (solver_new [''abcde'', ''abcdf''] [''abcde'', ''abcdf''])"
  have a: "avg_solutions_per_unique_match ?sv [0, 1] 0 = 1 / 2" by code_simp
  have l0: "lookup_match ?sv 0 0 = 242" by code_simp
  have l1: "lookup_match ?sv 0 1 = 80" by code_simp
  have "0 < card (lookup_match ?sv 0 ` set [0, 1])
       \<and> avg_solutions_per_unique_match ?sv [0, 1] 0 =
           of_int (int (length [0 :: nat, 1])
                   - (if \<exists>s \<in> set [0, 1]. lookup_match ?sv 0 s = ALL_GREENS_MATCH then 1 else 0))
           / of_nat (card (lookup_match ?sv 0 ` set [0, 1]))"
    by (rule avg_solutions_per_unique_match_formula [OF two_words_solver])
       (simp_all add: two_words_sizes)
  then show ?thesis
    using a by (simp add: l0 l1 ALL_GREENS_MATCH_eq)
qed

lemma collect_avgs_find:
  "collect_avgs f gs ret =
     (case find (\<lambda>g. f g < 1) gs of
        Some g \<Rightarrow> Inl (f g, g)
      | None \<Rightarrow> Inr (ret @ map (\<lambda>g. (f g, g)) gs))"
  by (induction gs arbitrary: ret) (auto simp: Let_def split: option.splits)

lemma find_upt_least:
  assumes "g < n" and "P g"
  shows "\<exists>g'. find P [0..<n] = Some g' \<and> g' \<le> g \<and> P g' \<and> (\<forall>h<g'. \<not> P h)"
proof -
  from assms have "\<exists>x \<in> set [0..<n]. P x" by auto
  then obtain g' where f: "find P [0..<n] = Some g'"
    by (cases "find P [0..<n]") (auto simp: find_None_iff)
  then obtain i where i: "i < length [0..<n]" "P ([0..<n] ! i)" "g' = [0..<n] ! i"
      "\<forall>j<i. \<not> P ([0..<n] ! j)"
    unfolding find_Some_iff by blast
  then have gi: "g' = i" "i < n" by simp_all
  have min: "\<forall>h<g'. \<not> P h" using i(4) gi by simp
  have "g' \<le> g"
  proof (rule ccontr)
    assume "\<not> g' \<le> g"
    then have "g < g'" by simp
    with min assms(2) show False by blast
  qed
  with f i(2) gi min show ?thesis by simp
qed

text \<open>
  Claim C7.  If some guess \<open>g\<close> has an average below 1 on the feasible list \<open>F\<close>, then
  \<^verbatim>\<open>get_best_unique_match_guesses\<close> returns a list of exactly one entry, the pair of an
  average and its guess, and that average is below 1; the prune limit and the partial
  sort play no part.  The guess returned is the first one with an average below 1.
\<close>

theorem get_best_early_exit:
  assumes "g < m_num_valid_guesses sv"
    and "avg_solutions_per_unique_match sv F g < 1"
  shows "\<exists>g'. g' \<le> g
          \<and> get_best_unique_match_guesses psort sv F = [(avg_solutions_per_unique_match sv F g', g')]
          \<and> avg_solutions_per_unique_match sv F g' < 1
          \<and> (\<forall>h<g'. \<not> avg_solutions_per_unique_match sv F h < 1)"
proof -
  from find_upt_least [of g "m_num_valid_guesses sv" "\<lambda>g. avg_solutions_per_unique_match sv F g < 1",
      OF assms]
  obtain g' where g': "find (\<lambda>g. avg_solutions_per_unique_match sv F g < 1) [0..<m_num_valid_guesses sv] = Some g'"
     "g' \<le> g" "avg_solutions_per_unique_match sv F g' < 1"
     "\<forall>h<g'. \<not> avg_solutions_per_unique_match sv F h < 1"
    by blast
  have "get_best_unique_match_guesses psort sv F = [(avg_solutions_per_unique_match sv F g', g')]"
    by (simp add: get_best_unique_match_guesses_def collect_avgs_find g'(1))
  with g'(2-4) show ?thesis by blast
qed

theorem get_best_early_exit_witness:
  "get_best_unique_match_guesses partial_sort_stable
      (projr (solver_new [''abcde'', ''abcdf''] [''abcde'', ''abcdf''])) [0, 1] = [(1 / 2, 0)]"
proof -
  let ?sv = "projr (solver_new [''abcde'', ''abcdf''] [''abcde'', ''abcdf''])"
  have a0: "avg_solutions_per_unique_match ?sv [0, 1] 0 = 1 / 2" by code_simp
  have a1: "avg_solutions_per_unique_match ?sv [0, 1] 1 = 1 / 2" by code_simp
  have "(1::nat) < m_num_valid_guesses ?sv" by (simp add: two_words_sizes)
  moreover have "avg_solutions_per_unique_match ?sv [0, 1] 1 < 1" unfolding a1 by simp
  ultimately obtain g' where g': "g' \<le> 1"
     "get_best_unique_match_guesses partial_sort_stable ?sv [0, 1]
        = [(avg_solutions_per_unique_match ?sv [0, 1] g', g')]"
     "\<forall>h<g'. \<not> avg_solutions_per_unique_match ?sv [0, 1] h < 1"
    using get_best_early_exit [of 1 ?sv "[0, 1]" partial_sort_stable] by blast
  have "g' = 0"
  proof (rule ccontr)
    assume "g' \<noteq> 0"
    then have "0 < g'" by simp
    with g'(3) have "\<not> avg_solutions_per_unique_match ?sv [0, 1] 0 < 1" by blast
    then show False unfolding a0 by simp
  qed
  with g'(2) a0 show ?thesis by simp
qed

lemma sorted_imp_partial_sort_post:
  assumes "mset ys = mset xs" and "sorted (map fst ys)"
  shows "partial_sort_post xs middle ys"
proof -
  have "map fst ys = map fst (take middle ys) @ map fst (drop middle ys)"
    by (simp flip: map_append)
  with assms(2) have "sorted (map fst (take middle ys) @ map fst (drop middle ys))" by simp
  then have "sorted (map fst (take middle ys))"
    and "\<forall>x \<in> set (take middle ys). \<forall>y \<in> set (drop middle ys). fst x \<le> fst y"
    unfolding sorted_append by auto
  with assms(1) show ?thesis by (simp add: partial_sort_post_def)
qed

lemma conforming_stable: "conforming partial_sort_stable"
  unfolding conforming_def partial_sort_stable_def
  by (auto intro!: sorted_imp_partial_sort_post)

lemma partial_sort_post_cut:
  assumes post: "partial_sort_post xs (Suc k) ys" and k: "k < length xs"
  shows "\<forall>x \<in> set (take k ys). \<forall>y \<in> set (drop k ys). fst x \<le> fst y"
proof (intro ballI)
  fix x y assume x: "x \<in> set (take k ys)" and y: "y \<in> set (drop k ys)"
  from post have len: "length ys = length xs"
    by (auto simp: partial_sort_post_def dest: mset_eq_length)
  from post have srt: "sorted (map fst (take (Suc k) ys))"
    and cross: "\<forall>x \<in> set (take (Suc k) ys). \<forall>y \<in> set (drop (Suc k) ys). fst x \<le> fst y"
    by (auto simp: partial_sort_post_def)
  have tk: "take (Suc k) ys = take k ys @ [ys ! k]"
    using k len by (simp add: take_Suc_conv_app_nth)
  have dk: "drop k ys = ys ! k # drop (Suc k) ys"
    using k len by (simp add: Cons_nth_drop_Suc)
  from srt tk x have xk: "fst x \<le> fst (ys ! k)"
    by (auto simp: sorted_append)
  from y dk consider "y = ys ! k" | "y \<in> set (drop (Suc k) ys)" by auto
  then show "fst x \<le> fst y"
  proof cases
    case 1
    with xk show ?thesis by simp
  next
    case 2
    moreover have "x \<in> set (take (Suc k) ys)" using x tk by simp
    ultimately show ?thesis using cross by blast
  qed
qed

lemma lookup_match_set_prune_limit:
  "lookup_match (set_prune_limit sv p) = lookup_match sv"
  by (intro ext) (simp add: lookup_match_def set_prune_limit_def)

lemma avg_set_prune_limit:
  "avg_solutions_per_unique_match (set_prune_limit sv p) F g = avg_solutions_per_unique_match sv F g"
proof -
  have "note_match (set_prune_limit sv p) g = note_match sv g"
    by (intro ext) (simp add: note_match_def lookup_match_set_prune_limit)
  then show ?thesis
    by (simp add: avg_solutions_per_unique_match_def)
qed

lemma ranker_returns_smallest_post:
  fixes sv :: solver and prune_limit :: int and psort :: partial_sort and F :: "nat list"
  defines "G \<equiv> m_num_valid_guesses sv"
    and "K \<equiv> min (nat prune_limit) (m_num_valid_guesses sv - 1)"
    and "r \<equiv> get_best_unique_match_guesses psort (set_prune_limit sv prune_limit) F"
  assumes post: "partial_sort_post
        (map (\<lambda>g. (avg_solutions_per_unique_match sv F g, g)) [0..<m_num_valid_guesses sv])
        (Suc (min (nat prune_limit) (m_num_valid_guesses sv - 1)))
        (psort (map (\<lambda>g. (avg_solutions_per_unique_match sv F g, g)) [0..<m_num_valid_guesses sv])
           (Suc (min (nat prune_limit) (m_num_valid_guesses sv - 1))))"
    and p: "0 \<le> prune_limit" "prune_limit < 2 ^ 31"
    and G: "0 < m_num_valid_guesses sv"
    and none: "\<forall>g < m_num_valid_guesses sv. \<not> avg_solutions_per_unique_match sv F g < 1"
  shows "length r = K
       \<and> sorted (map fst r)
       \<and> distinct (map snd r)
       \<and> (\<forall>e \<in> set r. snd e < G \<and> fst e = avg_solutions_per_unique_match sv F (snd e))
       \<and> (\<forall>g < G. g \<notin> snd ` set r \<longrightarrow>
             (\<forall>e \<in> set r. fst e \<le> avg_solutions_per_unique_match sv F g))"
proof -
  let ?sv = "set_prune_limit sv prune_limit"
  let ?avg = "avg_solutions_per_unique_match sv F"
  let ?ret = "map (\<lambda>g. (?avg g, g)) [0..<G]"
  let ?ys = "psort ?ret (Suc K)"
  have "prune_limit < 2 ^ 64" using p(2) by simp
  with p(1) have "prune_limit mod 2 ^ 64 = prune_limit" by (rule mod_pos_pos_trivial)
  then have "set_prune_limit sv prune_limit
      = sv\<lparr> m_prune_limit := min (nat prune_limit) (m_num_valid_guesses sv - 1) \<rparr>"
    by (simp only: set_prune_limit_def)
  then have pl: "m_prune_limit ?sv = K" and G': "m_num_valid_guesses ?sv = G"
    by (simp_all add: K_def G_def)
  have "find (\<lambda>g. ?avg g < 1) [0..<G] = None"
    using none by (simp add: find_None_iff G_def)
  moreover have "avg_solutions_per_unique_match ?sv F = ?avg"
    by (intro ext) (rule avg_set_prune_limit)
  ultimately have coll: "collect_avgs (avg_solutions_per_unique_match ?sv F) [0..<G] [] = Inr ?ret"
    by (simp add: collect_avgs_find)
  have KG: "K < G" using G by (simp add: K_def G_def)
  have post: "partial_sort_post ?ret (Suc K) ?ys"
    using post unfolding K_def G_def .
  then have ms: "mset ?ys = mset ?ret" by (simp add: partial_sort_post_def)
  have "length ?ys = length ?ret" using ms by (rule mset_eq_length)
  then have len: "length ?ys = G" by simp
  have r: "r = take K ?ys"
    using KG len by (simp add: r_def get_best_unique_match_guesses_def G' coll pl resize_def)
  have c1: "length r = K" using r len KG by simp
  from post have "sorted (map fst (take (Suc K) ?ys))" by (simp add: partial_sort_post_def)
  then have "sorted (take K (map fst (take (Suc K) ?ys)))" by (rule sorted_wrt_take)
  then have c2: "sorted (map fst r)" by (simp add: r take_map min_def)
  have m1: "mset (map snd ?ys) = mset (map snd ?ret)"
    unfolding mset_map ms by (rule refl)
  have sret: "map snd ?ret = [0..<G]" by (simp add: comp_def)
  have "mset (map snd ?ys) = mset [0..<G]" using m1 unfolding sret .
  then have "distinct (map snd ?ys) = distinct [0..<G]" by (rule mset_eq_imp_distinct_iff)
  then have "distinct (map snd ?ys)" by simp
  then have "distinct (take K (map snd ?ys))" by (rule distinct_take)
  then have c3: "distinct (map snd r)" by (simp add: r take_map)
  have sets: "set ?ys = set ?ret" using ms by (rule mset_eq_setD)
  have c4: "\<forall>e \<in> set r. snd e < G \<and> fst e = ?avg (snd e)"
  proof
    fix e assume "e \<in> set r"
    then have "e \<in> set ?ys" unfolding r by (rule in_set_takeD)
    then have "e \<in> (\<lambda>g. (?avg g, g)) ` {0..<G}" unfolding sets by simp
    then show "snd e < G \<and> fst e = ?avg (snd e)" by auto
  qed
  have cut: "\<forall>x \<in> set (take K ?ys). \<forall>y \<in> set (drop K ?ys). fst x \<le> fst y"
    using partial_sort_post_cut [OF post] KG by simp
  have c5: "\<forall>g < G. g \<notin> snd ` set r \<longrightarrow> (\<forall>e \<in> set r. fst e \<le> ?avg g)"
  proof (intro allI impI ballI)
    fix g e assume g: "g < G" and notin: "g \<notin> snd ` set r" and e: "e \<in> set r"
    from g have "(?avg g, g) \<in> set ?ys" unfolding sets by simp
    then have "(?avg g, g) \<in> set (take K ?ys) \<union> set (drop K ?ys)"
      by (simp flip: set_append)
    moreover have "(?avg g, g) \<notin> set (take K ?ys)"
    proof
      assume "(?avg g, g) \<in> set (take K ?ys)"
      then have "snd (?avg g, g) \<in> snd ` set r" unfolding r by (rule imageI)
      with notin show False by simp
    qed
    ultimately have "(?avg g, g) \<in> set (drop K ?ys)" by blast
    moreover have "e \<in> set (take K ?ys)" using e unfolding r .
    ultimately have "fst e \<le> fst (?avg g, g)" using cut by blast
    then show "fst e \<le> ?avg g" by simp
  qed
  from c1 c2 c3 c4 c5 show ?thesis by blast
qed


lemma ranker_returns_smallest:
  fixes sv :: solver and prune_limit :: int and psort :: partial_sort and F :: "nat list"
  defines "G \<equiv> m_num_valid_guesses sv"
    and "K \<equiv> min (nat prune_limit) (m_num_valid_guesses sv - 1)"
    and "r \<equiv> get_best_unique_match_guesses psort (set_prune_limit sv prune_limit) F"
  assumes conf: "conforming psort"
    and p: "0 \<le> prune_limit" "prune_limit < 2 ^ 31"
    and G: "0 < m_num_valid_guesses sv"
    and none: "\<forall>g < m_num_valid_guesses sv. \<not> avg_solutions_per_unique_match sv F g < 1"
  shows "length r = K
       \<and> sorted (map fst r)
       \<and> distinct (map snd r)
       \<and> (\<forall>e \<in> set r. snd e < G \<and> fst e = avg_solutions_per_unique_match sv F (snd e))
       \<and> (\<forall>g < G. g \<notin> snd ` set r \<longrightarrow>
             (\<forall>e \<in> set r. fst e \<le> avg_solutions_per_unique_match sv F g))"
proof -
  let ?ret = "map (\<lambda>g. (avg_solutions_per_unique_match sv F g, g)) [0..<m_num_valid_guesses sv]"
  have "Suc (min (nat prune_limit) (m_num_valid_guesses sv - 1)) \<le> length ?ret"
    using G by simp
  with conf have "partial_sort_post ?ret
      (Suc (min (nat prune_limit) (m_num_valid_guesses sv - 1)))
      (psort ?ret (Suc (min (nat prune_limit) (m_num_valid_guesses sv - 1))))"
    unfolding conforming_def by blast
  then show ?thesis
    unfolding G_def K_def r_def using p G none by (rule ranker_returns_smallest_post)
qed

text \<open>
  Claim C4, as amended.  Let the prune limit passed to \<^verbatim>\<open>solve\<close> lie in \<open>0 .. 2^31 - 1\<close>,
  let there be at least one guess, and let no guess have an average below 1.  When the
  partial sort keeps the contract of the C++ standard on the vector of all averages,
  \<^verbatim>\<open>get_best_unique_match_guesses\<close> returns \<open>K = min(prune_limit, G - 1)\<close> entries, in
  ascending order of average, for \<open>K\<close> distinct guesses, each paired with its own average,
  and no guess left out has an average smaller than that of a guess returned.  Which of
  several guesses of equal average is returned, and in which order, is whatever the
  partial sort produces.
\<close>

theorem get_best_smallest:
  fixes sv :: solver and prune_limit :: int and psort :: partial_sort and F :: "nat list"
  defines "G \<equiv> m_num_valid_guesses sv"
    and "K \<equiv> min (nat prune_limit) (m_num_valid_guesses sv - 1)"
    and "r \<equiv> get_best_unique_match_guesses psort (set_prune_limit sv prune_limit) F"
  assumes post: "partial_sort_post
        (map (\<lambda>g. (avg_solutions_per_unique_match sv F g, g)) [0..<m_num_valid_guesses sv])
        (Suc (min (nat prune_limit) (m_num_valid_guesses sv - 1)))
        (psort (map (\<lambda>g. (avg_solutions_per_unique_match sv F g, g)) [0..<m_num_valid_guesses sv])
           (Suc (min (nat prune_limit) (m_num_valid_guesses sv - 1))))"
    and p: "0 \<le> prune_limit" "prune_limit < 2 ^ 31"
    and G: "0 < m_num_valid_guesses sv"
    and none: "\<forall>g < m_num_valid_guesses sv. \<not> avg_solutions_per_unique_match sv F g < 1"
  shows "length r = K
       \<and> sorted (map fst r)
       \<and> distinct (map snd r)
       \<and> (\<forall>e \<in> set r. snd e < G \<and> fst e = avg_solutions_per_unique_match sv F (snd e))
       \<and> (\<forall>g < G. g \<notin> snd ` set r \<longrightarrow>
             (\<forall>e \<in> set r. fst e \<le> avg_solutions_per_unique_match sv F g))"
  unfolding G_def K_def r_def
  using post p G none by (rule ranker_returns_smallest_post)

lemma four_words_avgs:
  "map (avg_solutions_per_unique_match (projr (solver_new four_words four_words)) [0, 1, 2, 3])
     [0, 1, 2, 3]
   = [3 / 2, 3 / 2, 3 / 2, 3 / 2]"
  by code_simp

lemma four_words_size:
  "m_num_valid_guesses (projr (solver_new four_words four_words)) = 4"
  by code_simp

lemma four_words_post:
  "partial_sort_post
     (map (\<lambda>g. (avg_solutions_per_unique_match (projr (solver_new four_words four_words))
                   [0, 1, 2, 3] g, g))
        [0..<m_num_valid_guesses (projr (solver_new four_words four_words))])
     (Suc (min (nat 3) (m_num_valid_guesses (projr (solver_new four_words four_words)) - 1)))
     (ranges_partial_sort
        (map (\<lambda>g. (avg_solutions_per_unique_match (projr (solver_new four_words four_words))
                      [0, 1, 2, 3] g, g))
           [0..<m_num_valid_guesses (projr (solver_new four_words four_words))])
        (Suc (min (nat 3) (m_num_valid_guesses (projr (solver_new four_words four_words)) - 1))))"
  by code_simp

theorem get_best_smallest_witness:
  "length (get_best_unique_match_guesses ranges_partial_sort
             (set_prune_limit (projr (solver_new four_words four_words)) 3) [0, 1, 2, 3]) = 3
   \<and> distinct (map snd (get_best_unique_match_guesses ranges_partial_sort
             (set_prune_limit (projr (solver_new four_words four_words)) 3) [0, 1, 2, 3]))"
proof -
  let ?sv = "projr (solver_new four_words four_words)"
  have none: "\<forall>g < m_num_valid_guesses ?sv.
      \<not> avg_solutions_per_unique_match ?sv [0, 1, 2, 3] g < 1"
  proof (intro allI impI)
    fix g assume "g < m_num_valid_guesses ?sv"
    then have "g = 0 \<or> g = 1 \<or> g = 2 \<or> g = 3" unfolding four_words_size by arith
    then show "\<not> avg_solutions_per_unique_match ?sv [0, 1, 2, 3] g < 1"
      using four_words_avgs by auto
  qed
  have G: "0 < m_num_valid_guesses ?sv" unfolding four_words_size by simp
  have p: "(0::int) \<le> 3" "(3::int) < 2 ^ 31" by simp_all
  from get_best_smallest [where psort = ranges_partial_sort and sv = ?sv
      and F = "[0, 1, 2, 3]" and prune_limit = 3, OF four_words_post p G none]
  show ?thesis unfolding four_words_size by simp
qed

text \<open>
  Claim C4 as stated (ties broken by ascending guess index) fails.  With the four
  guesses and solutions \<open>aaaaa\<close>, \<open>bbbbb\<close>, \<open>ccccc\<close>, \<open>ddddd\<close> and prune limit 3, all four
  guesses have average 3/2 and three are to be returned.  \<^verbatim>\<open>make_heap\<close> and \<^verbatim>\<open>sort_heap\<close>
  on the four tied entries leave them in the order 1, 3, 0, 2, so the guesses returned
  are 1, 3, 0: guess 3 is returned and guess 2 is not, and guess 1 comes before guess 0.
\<close>

theorem get_best_ties_not_by_index:
  "map (avg_solutions_per_unique_match (projr (solver_new four_words four_words)) [0, 1, 2, 3])
     [0, 1, 2, 3]
   = [3 / 2, 3 / 2, 3 / 2, 3 / 2]
   \<and> get_best_unique_match_guesses ranges_partial_sort
       (set_prune_limit (projr (solver_new four_words four_words)) 3) [0, 1, 2, 3]
     = [(3 / 2, 1), (3 / 2, 3), (3 / 2, 0)]"
proof -
  have "get_best_unique_match_guesses ranges_partial_sort
       (set_prune_limit (projr (solver_new four_words four_words)) 3) [0, 1, 2, 3]
     = [(3 / 2, 1), (3 / 2, 3), (3 / 2, 0)]"
    by code_simp
  with four_words_avgs show ?thesis by blast
qed

section \<open>Facts about the search\<close>

lemma average_finite:
  "average_num_guesses n =
     Finite (if solved_count n = 0 then 0 else of_int (total_depth n) / of_int (solved_count n))"
  by (simp add: average_num_guesses_def double_div_def)

lemma min_element_in: "min_element proj b xs \<in> set (b # xs)"
  by (induction xs arbitrary: b) auto

lemma min_element_le:
  assumes fin: "\<And>z. proj z = Finite (q z)"
  shows "y \<in> set (b # xs) \<Longrightarrow> q (min_element proj b xs) \<le> q y"
proof (induction xs arbitrary: b y)
  case Nil
  then show ?case by simp
next
  case (Cons x xs)
  let ?b = "if double_less (proj x) (proj b) then x else b"
  have cmp: "double_less (proj x) (proj b) = (q x < q b)" by (simp add: fin)
  have h: "q (min_element proj ?b xs) \<le> q ?b"
    by (rule Cons.IH) simp
  from Cons.prems consider "y = b" | "y = x" | "y \<in> set xs" by auto
  then show ?case
  proof cases
    case 1
    with h show ?thesis by (simp add: cmp split: if_splits)
  next
    case 2
    with h show ?thesis by (simp add: cmp split: if_splits)
  next
    case 3
    then have "y \<in> set (?b # xs)" by simp
    from Cons.IH [OF this] show ?thesis by simp
  qed
qed

lemma min_element_first:
  fixes b :: nat
  assumes fin: "\<And>z. proj z = Finite (q z)"
    and "sorted_wrt (<) (b # xs)" and "j \<in> set (b # xs)" and "j < min_element proj b xs"
  shows "q (min_element proj b xs) < q j"
  using assms(2-4)
proof (induction xs arbitrary: b j)
  case Nil
  then show ?case by simp
next
  case (Cons x xs)
  let ?b = "if double_less (proj x) (proj b) then x else b"
  let ?r = "min_element proj ?b xs"
  have cmp: "double_less (proj x) (proj b) = (q x < q b)" by (simp add: fin)
  have r: "min_element proj b (x # xs) = ?r" by simp
  have srt: "sorted_wrt (<) (?b # xs)" using Cons.prems(1) by auto
  have rin: "?r \<in> set (?b # xs)" by (rule min_element_in)
  have rle: "q ?r \<le> q ?b" by (rule min_element_le [OF fin]) simp
  from Cons.prems(2) consider "j \<in> set (?b # xs)" | "j \<notin> set (?b # xs)" "j = b" | "j \<notin> set (?b # xs)" "j = x"
    by auto
  then show ?case
  proof cases
    case 1
    from Cons.IH [OF srt 1] Cons.prems(3) show ?thesis by simp
  next
    case 2
    then have "q x < q b" by (auto simp: cmp split: if_splits)
    with rle 2 show ?thesis by (simp add: cmp)
  next
    case 3
    then have nb: "\<not> q x < q b" and bb: "?b = b" by (auto simp: cmp split: if_splits)
    from Cons.prems(3) 3 have "x < ?r" by simp
    moreover have "b < x" using Cons.prems(1) by simp
    ultimately have "b < ?r" by simp
    moreover have "b \<in> set (?b # xs)" using bb by simp
    ultimately have "q ?r < q b" using Cons.IH [OF srt] by blast
    with nb 3 show ?thesis by (simp add: cmp)
  qed
qed

lemma best_index_props:
  fixes depth :: int and subtrees :: "node list"
  assumes ne: "subtrees \<noteq> []"
  defines "b \<equiv> best_index depth subtrees"
  shows "b < length subtrees"
    and "(\<forall>i < length subtrees. \<not> within_depth depth (subtrees ! i)) \<Longrightarrow> b = 0"
    and "(\<exists>i < length subtrees. within_depth depth (subtrees ! i)) \<Longrightarrow>
           within_depth depth (subtrees ! b)
         \<and> (\<forall>i < length subtrees. within_depth depth (subtrees ! i) \<longrightarrow>
               \<not> double_less (average_num_guesses (subtrees ! i))
                              (average_num_guesses (subtrees ! b))
             \<and> (i < b \<longrightarrow> double_less (average_num_guesses (subtrees ! b))
                                        (average_num_guesses (subtrees ! i))))"
proof -
  let ?P = "\<lambda>i. within_depth depth (subtrees ! i)"
  let ?f = "filter ?P [0..<length subtrees]"
  let ?proj = "\<lambda>i. average_num_guesses (subtrees ! i)"
  let ?q = "\<lambda>i. if solved_count (subtrees ! i) = 0 then 0
                 else of_int (total_depth (subtrees ! i)) / of_int (solved_count (subtrees ! i)) :: rat"
  have fin: "?proj z = Finite (?q z)" for z by (rule average_finite)
  have fset: "set ?f = {i. i < length subtrees \<and> ?P i}" by auto
  have srt: "sorted_wrt (<) ?f" by (rule sorted_wrt_filter) simp
  show none: "b = 0" if "\<forall>i < length subtrees. \<not> ?P i"
  proof -
    from that have "?f = []" by (simp add: filter_empty_conv)
    then show ?thesis by (simp add: b_def best_index_def)
  qed
  have some: "b \<in> set ?f \<and> (\<forall>i \<in> set ?f. ?q b \<le> ?q i \<and> (i < b \<longrightarrow> ?q b < ?q i))"
    if "\<exists>i < length subtrees. ?P i"
  proof -
    from that have "?f \<noteq> []" by (auto simp: filter_empty_conv)
    then obtain x xs where f: "?f = x # xs" by (cases ?f) auto
    then have b: "b = min_element ?proj x xs" by (simp add: b_def best_index_def)
    have "b \<in> set ?f" unfolding b f by (rule min_element_in)
    moreover have "\<forall>i \<in> set ?f. ?q b \<le> ?q i"
      unfolding b f by (intro ballI min_element_le [where proj = ?proj and q = ?q] fin)
    moreover have "\<forall>i \<in> set ?f. i < b \<longrightarrow> ?q b < ?q i"
      unfolding b using srt unfolding f
      by (intro ballI impI min_element_first [where proj = ?proj and q = ?q] fin)
    ultimately show ?thesis by blast
  qed
  show "within_depth depth (subtrees ! b)
         \<and> (\<forall>i < length subtrees. within_depth depth (subtrees ! i) \<longrightarrow>
               \<not> double_less (average_num_guesses (subtrees ! i))
                              (average_num_guesses (subtrees ! b))
             \<and> (i < b \<longrightarrow> double_less (average_num_guesses (subtrees ! b))
                                        (average_num_guesses (subtrees ! i))))"
    if "\<exists>i < length subtrees. ?P i"
  proof -
    from some [OF that] have bP: "?P b"
      and mn: "\<forall>i. i < length subtrees \<and> ?P i \<longrightarrow> ?q b \<le> ?q i \<and> (i < b \<longrightarrow> ?q b < ?q i)"
      unfolding fset by blast+
    have "\<not> double_less (?proj i) (?proj b) \<and> (i < b \<longrightarrow> double_less (?proj b) (?proj i))"
      if "i < length subtrees" "?P i" for i
    proof -
      from mn that have "?q b \<le> ?q i" "i < b \<longrightarrow> ?q b < ?q i" by blast+
      then show ?thesis unfolding fin [of i] fin [of b] by (simp add: not_less)
    qed
    with bP show ?thesis by blast
  qed
  show "b < length subtrees"
  proof (cases "\<exists>i < length subtrees. ?P i")
    case True
    from some [OF True] show ?thesis unfolding fset by blast
  next
    case False
    then have "b = 0" using none by blast
    with ne show ?thesis by simp
  qed
qed



lemma solve_miss:
  assumes "\<not> (lookup_memo memo F \<noteq> None \<and> within_depth depth (the (lookup_memo memo F)))"
  shows "solve psort sv (Suc fuel) memo F depth =
           (case explore (solve psort sv fuel) sv memo F depth
                   (get_best_unique_match_guesses psort sv F) of
              Inl f \<Rightarrow> Inl f
            | Inr (subtrees, memo') \<Rightarrow>
                if subtrees = [] then Inl Empty_block
                else Inr (swap_nodes (best_index depth subtrees) 0 subtrees ! 0,
                          set_memo memo' F (swap_nodes (best_index depth subtrees) 0 subtrees ! 0)))"
  by (simp only: solve.simps Let_def if_not_P [OF assms])

subsection \<open>More fuel does not change a result\<close>

lemma traverse_match_mono:
  assumes "search_le rec rec'"
    and "traverse_match rec sv memo subtree g depth avail = Inr r"
  shows "traverse_match rec' sv memo subtree g depth avail = Inr r"
proof (cases "avail = [] \<or> length avail = 1")
  case True
  with assms(2) show ?thesis by (auto simp: traverse_match_def)
next
  case False
  with assms(2) obtain child memo' where
    rc: "rec memo avail (depth + 1) = Inr (child, memo')"
    by (auto simp: traverse_match_def split: sum.splits)
  with assms(1) have "rec' memo avail (depth + 1) = Inr (child, memo')"
    unfolding search_le_def by blast
  with rc assms(2) False show ?thesis by (simp add: traverse_match_def)
qed

lemma traverse_loop_mono:
  assumes "search_le rec rec'"
  shows "traverse_loop rec sv sbm memo subtree g depth ms = Inr r \<Longrightarrow>
         traverse_loop rec' sv sbm memo subtree g depth ms = Inr r"
proof (induction ms arbitrary: memo subtree)
  case Nil
  then show ?case by simp
next
  case (Cons m ms)
  from Cons.prems obtain c st1 memo1 where
    tm: "traverse_match rec sv memo subtree g depth (sbm ! m) = Inr (c, st1, memo1)"
    by (auto split: sum.splits)
  have tm': "traverse_match rec' sv memo subtree g depth (sbm ! m) = Inr (c, st1, memo1)"
    using assms tm by (rule traverse_match_mono)
  show ?case
  proof (cases c)
    case True
    with Cons.prems tm have "traverse_loop rec sv sbm memo1 st1 g depth ms = Inr r" by simp
    from Cons.IH [OF this] True tm' show ?thesis by simp
  next
    case False
    with Cons.prems tm tm' show ?thesis by simp
  qed
qed

lemma explore_mono:
  assumes "search_le rec rec'"
  shows "explore rec sv memo F depth best_guesses = Inr r \<Longrightarrow>
         explore rec' sv memo F depth best_guesses = Inr r"
proof (induction best_guesses arbitrary: memo r)
  case Nil
  then show ?case by simp
next
  case (Cons bg rest)
  let ?st = "Node (snd bg) 0 0 0 False [] []"
  from Cons.prems obtain st1 memo1 where
    tm: "traverse_matches rec sv memo ?st (snd bg) F depth = Inr (st1, memo1)"
    by (auto simp: Let_def split: sum.splits)
  with Cons.prems obtain sts memo2 where
    ex: "explore rec sv memo1 F depth rest = Inr (sts, memo2)" and r: "r = (st1 # sts, memo2)"
    by (auto simp: Let_def split: sum.splits)
  have tm': "traverse_matches rec' sv memo ?st (snd bg) F depth = Inr (st1, memo1)"
    using tm unfolding traverse_matches_def by (rule traverse_loop_mono [OF assms])
  from Cons.IH [OF ex] tm' r show ?case by (simp add: Let_def)
qed

lemma solve_mono_Suc: "search_le (solve psort sv fuel) (solve psort sv (Suc fuel))"
proof (induction fuel)
  case 0
  show ?case by (simp add: search_le_def)
next
  case (Suc fuel)
  show ?case
    unfolding search_le_def
  proof (intro allI impI)
    fix memo F depth r
    assume res: "solve psort sv (Suc fuel) memo F depth = Inr r"
    show "solve psort sv (Suc (Suc fuel)) memo F depth = Inr r"
    proof (cases "lookup_memo memo F \<noteq> None \<and> within_depth depth (the (lookup_memo memo F))")
      case True
      with res show ?thesis by simp
    next
      case False
      let ?best = "get_best_unique_match_guesses psort sv F"
      from res False obtain subtrees memo1 where
        ex: "explore (solve psort sv fuel) sv memo F depth ?best = Inr (subtrees, memo1)"
        by (cases "explore (solve psort sv fuel) sv memo F depth ?best") (auto simp: Let_def)
      have ex': "explore (solve psort sv (Suc fuel)) sv memo F depth ?best = Inr (subtrees, memo1)"
        using ex by (rule explore_mono [OF Suc])
      have "solve psort sv (Suc (Suc fuel)) memo F depth = solve psort sv (Suc fuel) memo F depth"
        unfolding solve_miss [OF False] ex ex' by (rule refl)
      with res show ?thesis by simp
    qed
  qed
qed

lemma solve_mono: "search_le (solve psort sv fuel) (solve psort sv (fuel + k))"
proof (induction k)
  case 0
  show ?case by (simp add: search_le_def)
next
  case (Suc k)
  with solve_mono_Suc [of psort sv "fuel + k"] show ?case
    unfolding search_le_def by simp
qed

subsection \<open>Enough fuel gives a result\<close>









subsection \<open>The selection among the candidates\<close>

lemma three_words_solve:
  "solve ranges_partial_sort
     (set_prune_limit (projr (solver_new three_words three_words)) 2)
     (Suc (Suc 0)) [] [0, 1, 2] 0
   = Inr (Node 0 6 3 1 True [Node 1 3 2 2 True [] [2]] [],
          [([0, 1, 2], Node 0 6 3 1 True [Node 1 3 2 2 True [] [2]] []),
           ([0, 2], Node 0 3 2 2 True [] [2]),
           ([1, 2], Node 1 3 2 2 True [] [2])])"
  by code_simp




text \<open>
  The node that run returns: guess 0, with three solutions solved in six guesses in all.
  Both candidates of the block have the average 2, and the earlier one is chosen.
\<close>

lemma three_words_chosen:
  "solve ranges_partial_sort
     (set_prune_limit (projr (solver_new three_words three_words)) 2)
     (Suc (Suc (Suc (Suc 0)))) [] [0, 1, 2] 0
   = Inr (Node 0 6 3 1 True [Node 1 3 2 2 True [] [2]] [],
          [([0, 1, 2], Node 0 6 3 1 True [Node 1 3 2 2 True [] [2]] []),
           ([0, 2], Node 0 3 2 2 True [] [2]),
           ([1, 2], Node 1 3 2 2 True [] [2])])"
proof -
  have "search_le
      (solve ranges_partial_sort
         (set_prune_limit (projr (solver_new three_words three_words)) 2) (Suc (Suc 0)))
      (solve ranges_partial_sort
         (set_prune_limit (projr (solver_new three_words three_words)) 2) (Suc (Suc 0) + 2))"
    by (rule solve_mono)
  with three_words_solve show ?thesis
    unfolding search_le_def by (simp del: solve.simps)
qed


subsection \<open>The counters of the nodes\<close>

lemma mark_solved_ok: "node_ok n \<Longrightarrow> node_ok (mark_solved sv n g s)"
  by (cases n) (auto simp: mark_solved_def node_ok_def)

lemma traverse_match_ok:
  assumes "search_ok rec" and "memo_ok memo" and "node_ok subtree"
    and "traverse_match rec sv memo subtree g depth avail = Inr (c, subtree', memo')"
  shows "node_ok subtree' \<and> memo_ok memo'"
proof (cases "avail = [] \<or> length avail = 1")
  case True
  with assms(2-4) show ?thesis
    by (auto simp: traverse_match_def mark_solved_ok split: if_splits)
next
  case False
  with assms(4) obtain child where
    r: "rec memo avail (depth + 1) = Inr (child, memo')"
    and s': "subtree' = Node (guess_index subtree)
                (total_depth subtree + (solved_count child + total_depth child))
                (solved_count subtree + solved_count child)
                (min (min_depth subtree) (min_depth child + 1))
                (is_leaf subtree) (children subtree @ [child]) (leaves subtree)"
    by (cases subtree) (auto simp: traverse_match_def Let_def split: sum.splits)
  from assms(1,2) r have "node_ok child" "memo_ok memo'"
    unfolding search_ok_def by blast+
  with assms(3) s' show ?thesis by (auto simp: node_ok_def)
qed

lemma traverse_loop_ok:
  assumes "search_ok rec"
  shows "memo_ok memo \<Longrightarrow> node_ok subtree \<Longrightarrow>
         traverse_loop rec sv sbm memo subtree g depth ms = Inr (subtree', memo') \<Longrightarrow>
         node_ok subtree' \<and> memo_ok memo'"
proof (induction ms arbitrary: memo subtree)
  case Nil
  then show ?case by simp
next
  case (Cons m ms)
  from Cons.prems(3) obtain c st1 memo1 where
    tm: "traverse_match rec sv memo subtree g depth (sbm ! m) = Inr (c, st1, memo1)"
    by (auto split: sum.splits)
  from traverse_match_ok [OF assms Cons.prems(1,2) tm]
  have ok1: "node_ok st1" "memo_ok memo1" by simp_all
  show ?case
  proof (cases c)
    case True
    with Cons.prems(3) tm
    have "traverse_loop rec sv sbm memo1 st1 g depth ms = Inr (subtree', memo')" by simp
    from Cons.IH [OF ok1(2,1) this] show ?thesis .
  next
    case False
    with Cons.prems(3) tm ok1 show ?thesis by simp
  qed
qed

lemma explore_ok:
  assumes "search_ok rec"
  shows "memo_ok memo \<Longrightarrow>
         explore rec sv memo F depth best_guesses = Inr (subtrees, memo') \<Longrightarrow>
         (\<forall>n \<in> set subtrees. node_ok n) \<and> memo_ok memo'"
proof (induction best_guesses arbitrary: memo subtrees)
  case Nil
  then show ?case by simp
next
  case (Cons bg rest)
  let ?st = "Node (snd bg) 0 0 0 False [] []"
  from Cons.prems(2) obtain st1 memo1 where
    tm: "traverse_matches rec sv memo ?st (snd bg) F depth = Inr (st1, memo1)"
    by (auto simp: Let_def split: sum.splits)
  with Cons.prems(2) obtain sts where
    ex: "explore rec sv memo1 F depth rest = Inr (sts, memo')" and sub: "subtrees = st1 # sts"
    by (auto simp: Let_def split: sum.splits)
  have "node_ok ?st" by (simp add: node_ok_def)
  from traverse_loop_ok [OF assms Cons.prems(1) this tm [unfolded traverse_matches_def]]
  have ok1: "node_ok st1" "memo_ok memo1" by simp_all
  from Cons.IH [OF ok1(2) ex] ok1(1) sub show ?case by simp
qed

lemma set_memo_ok: "memo_ok memo \<Longrightarrow> node_ok n \<Longrightarrow> memo_ok (set_memo memo key n)"
  by (auto simp: memo_ok_def set_memo_def)

lemma lookup_memo_ok: "memo_ok memo \<Longrightarrow> lookup_memo memo key = Some n \<Longrightarrow> node_ok n"
  by (auto simp: memo_ok_def lookup_memo_def dest!: map_of_SomeD)

lemma solve_ok: "search_ok (solve psort sv fuel)"
proof (induction fuel)
  case 0
  show ?case by (simp add: search_ok_def)
next
  case (Suc fuel)
  show ?case
    unfolding search_ok_def
  proof (intro allI impI)
    fix memo F depth nd memo'
    assume mo: "memo_ok memo" and res: "solve psort sv (Suc fuel) memo F depth = Inr (nd, memo')"
    show "node_ok nd \<and> memo_ok memo'"
    proof (cases "lookup_memo memo F \<noteq> None \<and> within_depth depth (the (lookup_memo memo F))")
      case True
      with res have "lookup_memo memo F = Some nd" "memo' = memo" by auto
      with mo lookup_memo_ok show ?thesis by blast
    next
      case False
      let ?best = "get_best_unique_match_guesses psort sv F"
      from res False obtain subtrees memo1 where
        ex: "explore (solve psort sv fuel) sv memo F depth ?best = Inr (subtrees, memo1)"
        by (cases "explore (solve psort sv fuel) sv memo F depth ?best") (auto simp: Let_def)
      from res False ex have ne: "subtrees \<noteq> []"
        by (auto simp: Let_def split: if_splits)
      let ?b = "best_index depth subtrees"
      from res False ex ne have nd: "nd = swap_nodes ?b 0 subtrees ! 0"
        and memo': "memo' = set_memo memo1 F nd"
        by (auto simp: Let_def)
      from explore_ok [OF Suc mo ex] have oks: "\<forall>n \<in> set subtrees. node_ok n" "memo_ok memo1"
        by simp_all
      have "?b < length subtrees" using best_index_props(1) [OF ne] .
      moreover have "nd = subtrees ! ?b" using nd ne by (simp add: swap_nodes_def)
      ultimately have "node_ok nd" using oks(1) by simp
      with oks(2) memo' set_memo_ok show ?thesis by blast
    qed
  qed
qed

lemma node_ok_average_nonneg:
  "node_ok n \<Longrightarrow> \<exists>q. average_num_guesses n = Finite q \<and> 0 \<le> q"
  by (simp add: node_ok_def average_finite)

lemma apple_explore:
  "explore (solve partial_sort_stable (projr (solver_new [''apple''] [''apple''])) 0)
     (projr (solver_new [''apple''] [''apple''])) [] [0] 0 [(0, 0)]
   = Inr ([Node 0 1 1 1 True [] []], [])"
  by code_simp

text \<open>
  Claim C10.  \<^verbatim>\<open>average_num_guesses\<close> never divides by zero: its value is a finite
  number on every node, 0 when \<^verbatim>\<open>solved_count\<close> is 0 and \<^verbatim>\<open>total_depth / solved_count\<close>
  otherwise, where the bare quotient would be an infinity or a NaN.  Every candidate \<open>m\<close>
  explored by the search (from a memo table of consistent nodes) has a non-negative
  average, so a node \<open>c\<close> that solved no solution has the least possible average: no
  candidate compares less than it.
\<close>

theorem average_num_guesses_total:
  assumes "memo_ok memo"
    and "explore (solve psort sv fuel) sv memo F depth best_guesses = Inr (subtrees, memo')"
    and "m \<in> set subtrees"
  shows "(\<exists>q. average_num_guesses n = Finite q)
       \<and> (solved_count n = 0 \<longrightarrow>
             average_num_guesses n = Finite 0
           \<and> double_div (total_depth n) (solved_count n) \<noteq> average_num_guesses n)
       \<and> (solved_count n \<noteq> 0 \<longrightarrow>
             average_num_guesses n = Finite (of_int (total_depth n) / of_int (solved_count n)))
       \<and> (solved_count c = 0 \<longrightarrow>
             \<not> double_less (average_num_guesses m) (average_num_guesses c))"
proof -
  from explore_ok [OF solve_ok assms(1,2)] assms(3) have "node_ok m" by blast
  then obtain q where q: "average_num_guesses m = Finite q" "0 \<le> q"
    using node_ok_average_nonneg by blast
  have c: "solved_count c = 0 \<longrightarrow> \<not> double_less (average_num_guesses m) (average_num_guesses c)"
    unfolding q average_finite [of c] using q(2) by simp
  have z: "solved_count n = 0 \<longrightarrow> double_div (total_depth n) (solved_count n) \<noteq> average_num_guesses n"
    unfolding average_finite [of n] by (simp add: double_div_def)
  from c z show ?thesis by (simp add: average_finite)
qed

theorem average_num_guesses_total_witness:
  "average_num_guesses new_node = Finite 0
   \<and> \<not> double_less (average_num_guesses (Node 0 1 1 1 True [] [])) (average_num_guesses new_node)
   \<and> average_num_guesses (Node 0 1 1 1 True [] []) = Finite 1"
proof -
  have "memo_ok []" by (simp add: memo_ok_def)
  from average_num_guesses_total [OF this apple_explore, of "Node 0 1 1 1 True [] []"
      new_node new_node]
    average_num_guesses_total [OF this apple_explore, of "Node 0 1 1 1 True [] []"
      "Node 0 1 1 1 True [] []" new_node]
  show ?thesis by (simp add: new_node_def)
qed

section \<open>A run of the search\<close>

lemma solver_new_Inr:
  assumes "check_guesses_solutions valid_guesses solutions = None"
  shows "solver_new valid_guesses solutions = Inr (projr (solver_new valid_guesses solutions))"
    and "m_num_valid_guesses (projr (solver_new valid_guesses solutions)) = length valid_guesses"
    and "m_num_solutions (projr (solver_new valid_guesses solutions)) = length solutions"
  using assms by (auto simp: solver_new_def split: prod.splits)

lemma pairs_check: "check_guesses_solutions pairs_guesses pairs_solutions = None"
  by (simp add: check_guesses_solutions_def pairs_guesses_def pairs_solutions_def
      NUM_WORD_LETTERS_def)

lemma pairs_avgs:
  "map (avg_solutions_per_unique_match (projr (solver_new pairs_guesses pairs_solutions))
          [0, 1, 2, 3, 4, 5, 6, 7])
     [0, 1, 2, 3, 4, 5, 6, 7, 8]
   = [2, 7 / 3, 7 / 3, 7 / 3, 7 / 3, 7 / 3, 7 / 3, 7 / 3, 7 / 3]"
  by code_simp

lemma pairs_best:
  assumes "conforming psort"
  shows "get_best_unique_match_guesses psort
           (set_prune_limit (projr (solver_new pairs_guesses pairs_solutions)) 1)
           [0, 1, 2, 3, 4, 5, 6, 7] = [(2, 0)]"
proof -
  let ?sv = "projr (solver_new pairs_guesses pairs_solutions)"
  let ?F = "[0, 1, 2, 3, 4, 5, 6, 7] :: nat list"
  let ?avg = "avg_solutions_per_unique_match ?sv ?F"
  let ?r = "get_best_unique_match_guesses psort (set_prune_limit ?sv 1) ?F"
  have G: "m_num_valid_guesses ?sv = 9"
    using solver_new_Inr(2) [OF pairs_check] by (simp add: pairs_guesses_def pairs_solutions_def)
  have a0: "?avg 0 = 2" using pairs_avgs by simp
  have a: "?avg g = 7 / 3" if "0 < g" "g < 9" for g
  proof -
    from that have "g = 1 \<or> g = 2 \<or> g = 3 \<or> g = 4 \<or> g = 5 \<or> g = 6 \<or> g = 7 \<or> g = 8"
      by arith
    then show ?thesis using pairs_avgs by auto
  qed
  have none: "\<forall>g < m_num_valid_guesses ?sv. \<not> ?avg g < 1"
  proof (intro allI impI)
    fix g assume "g < m_num_valid_guesses ?sv"
    then have "g < 9" unfolding G .
    then show "\<not> ?avg g < 1" using a0 a [of g] by (cases "g = 0") simp_all
  qed
  have pos: "0 < m_num_valid_guesses ?sv" unfolding G by simp
  have p: "(0::int) \<le> 1" "(1::int) < 2 ^ 31" by simp_all
  have K: "min (nat 1) (9 - 1) = (1::nat)" by simp
  note props = ranker_returns_smallest [OF assms p pos none, unfolded G K]
  from props have len: "length ?r = 1" by (rule conjunct1)
  from props have el: "\<forall>e \<in> set ?r. snd e < 9 \<and> fst e = ?avg (snd e)" by blast
  from props
  have rest: "\<forall>g < 9. g \<notin> snd ` set ?r \<longrightarrow> (\<forall>e \<in> set ?r. fst e \<le> ?avg g)"
    by blast
  from len obtain e where r: "?r = [e]"
    by (cases ?r) auto
  from el r have e: "snd e < 9" "fst e = ?avg (snd e)" by simp_all
  have "snd e = 0"
  proof (rule ccontr)
    assume ne: "snd e \<noteq> 0"
    then have "0 \<notin> snd ` set ?r" using r by simp
    with rest r have "fst e \<le> ?avg 0" by simp
    moreover have "fst e = 7 / 3" using e a [of "snd e"] ne by simp
    ultimately show False using a0 by simp
  qed
  with e a0 have "e = (2, 0)" by (cases e) simp
  with r show ?thesis by simp
qed

lemma pairs_explore:
  "map_sum id fst
     (explore (solve psort (set_prune_limit (projr (solver_new pairs_guesses pairs_solutions)) 1) (Suc 0))
        (set_prune_limit (projr (solver_new pairs_guesses pairs_solutions)) 1)
        [] [0, 1, 2, 3, 4, 5, 6, 7] 0 [(2, 0)])
   = Inr [Node 0 20 8 0 False
            [Node 1 3 2 2 True [] [1], Node 3 3 2 2 True [] [3],
             Node 5 3 2 2 True [] [5], Node 7 3 2 2 True [] [7]] []]"
  by code_simp

lemma within_depth_0: "within_depth 0 (Node g td sc 0 il ch lv)"
  by (simp add: within_depth_def NUM_ALLOWED_GUESSES_def)

text \<open>
  Claim C1, at a failing input.  The guesses are \<open>abcdz\<close> followed by the eight
  solutions \<open>ammmm\<close>, \<open>annnn\<close>, \<open>bpppp\<close>, \<open>bqqqq\<close>, \<open>crrrr\<close>, \<open>cssss\<close>, \<open>dtttt\<close>,
  \<open>duuuu\<close>, and the prune limit is 1.  Guess \<open>abcdz\<close> has the strictly smallest average
  (2 against 7/3) and is the only candidate; it splits the solutions into four pairs, so
  every step of \<^verbatim>\<open>traverse_match\<close> recurses and takes the minimum with the initial 0,
  and \<^verbatim>\<open>mark_solved\<close> is never called on the root.  With every partial sort that keeps
  its contract, \<^verbatim>\<open>solve(1)\<close> returns a root whose \<^verbatim>\<open>min_depth\<close> (the fourth field) is 0,
  where the claim says that it is at least 1.
\<close>

theorem solve_min_depth_zero:
  assumes "conforming psort"
  shows "solve_run psort (projr (solver_new pairs_guesses pairs_solutions)) (Suc (Suc 0)) 1
         = Inr (Node 0 20 8 0 False
                  [Node 1 3 2 2 True [] [1], Node 3 3 2 2 True [] [3],
                   Node 5 3 2 2 True [] [5], Node 7 3 2 2 True [] [7]] [])"
proof -
  let ?sv = "set_prune_limit (projr (solver_new pairs_guesses pairs_solutions)) 1"
  let ?F = "[0, 1, 2, 3, 4, 5, 6, 7] :: nat list"
  let ?n = "Node 0 20 8 0 False
                  [Node 1 3 2 2 True [] [1], Node 3 3 2 2 True [] [3],
                   Node 5 3 2 2 True [] [5], Node 7 3 2 2 True [] [7]] []"
  have S: "m_num_solutions ?sv = 8"
    using solver_new_Inr(3) [OF pairs_check]
    by (simp add: set_prune_limit_def pairs_solutions_def)
  have F: "[0..<m_num_solutions ?sv] = ?F"
    unfolding S by (simp add: upt_rec)
  from pairs_explore [of psort] obtain memo1 where
    ex: "explore (solve psort ?sv (Suc 0)) ?sv [] ?F 0 [(2, 0)] = Inr ([?n], memo1)"
    by (cases "explore (solve psort ?sv (Suc 0)) ?sv [] ?F 0 [(2, 0)]") auto
  have bi: "best_index 0 [?n] = 0"
    by (simp add: best_index_def within_depth_0)
  have "solve psort ?sv (Suc (Suc 0)) [] ?F 0 = Inr (?n, set_memo memo1 ?F ?n)"
    by (simp add: lookup_memo_def pairs_best [OF assms] ex bi swap_nodes_def
        del: upt_Suc One_nat_def explore.simps)
  then show ?thesis
    by (simp add: solve_run_def F del: upt_Suc One_nat_def)
qed

theorem solve_min_depth_zero_witness:
  "min_depth (projr (solve_run partial_sort_stable
       (projr (solver_new pairs_guesses pairs_solutions)) (Suc (Suc 0)) 1)) = 0"
  using solve_min_depth_zero [OF conforming_stable] by simp

end
